theory Spec2Isabelle
  imports Main "HOL-Library.Word"
begin

unbundle bit_operations_syntax

section \<open>Python values and exceptions\<close>

text \<open>
  Python integers are unbounded and are modelled as \<^typ>\<open>int\<close>. A \<^verbatim>\<open>bytearray\<close> and
  the list of integers that the bus read hands back are both \<^typ>\<open>int list\<close>; the
  range check that a \<^verbatim>\<open>bytearray\<close> performs on every stored element is written out.
  Every exception of the source is a value of \<open>error\<close>, and a computation that may raise
  returns \<open>error + 'a\<close> with the exception on the left.
\<close>

datatype mb_reason =
  FailedToList | NoSuchMonitor | CouldNotGet | NotReadable
  | CouldNotSet | NotWriteable | AboveMax

datatype error =
  IndexError | KeyError | ValueError | TypeError | AttributeError | OSError | VCPError
  | AssertionError
  | MonitorBossError mb_reason

definition raise_bind :: "error + 'a \<Rightarrow> ('a \<Rightarrow> error + 'b) \<Rightarrow> error + 'b" where
  "raise_bind m f = (case m of Inl e \<Rightarrow> Inl e | Inr x \<Rightarrow> f x)"

text \<open>\<^verbatim>\<open>data[i]\<close> on a list or bytearray: an index below zero counts from the end, and an
  index outside the sequence raises \<^verbatim>\<open>IndexError\<close>.\<close>

definition getitem :: "'a list \<Rightarrow> int \<Rightarrow> error + 'a" where
  "getitem data i =
     (if 0 \<le> i \<and> i < int (length data) then Inr (data ! nat i)
      else if i < 0 \<and> 0 \<le> i + int (length data) then Inr (data ! nat (i + int (length data)))
      else Inl IndexError)"

text \<open>\<^verbatim>\<open>bytearray.append(b)\<close> and \<^verbatim>\<open>packet[i] = b\<close>: a value outside \<open>range(0, 256)\<close>
  raises \<^verbatim>\<open>ValueError\<close>.\<close>

definition is_byte :: "int \<Rightarrow> bool" where
  "is_byte b = (0 \<le> b \<and> b < 256)"

definition bytearray_append :: "int list \<Rightarrow> int \<Rightarrow> error + int list" where
  "bytearray_append packet b = (if is_byte b then Inr (packet @ [b]) else Inl ValueError)"

definition bytearray_setitem :: "int list \<Rightarrow> int \<Rightarrow> int \<Rightarrow> error + int list" where
  "bytearray_setitem packet i b =
     (if \<not> is_byte b then Inl ValueError
      else if 0 \<le> i \<and> i < int (length packet) then Inr (packet[nat i := b])
      else if i < 0 \<and> 0 \<le> i + int (length packet)
        then Inr (packet[nat (i + int (length packet)) := b])
      else Inl IndexError)"

section \<open>Packet codec (pyddc/macos.py)\<close>

definition read_buffer_size :: nat where
  "read_buffer_size = 11"

definition KERN_SUCCESS :: int where
  "KERN_SUCCESS = 0"

definition ARM64_DDC_DATA_ADDRESS :: int where
  "ARM64_DDC_DATA_ADDRESS = 0x51"

definition ARM64_DDC_7BIT_ADDRESS :: int where
  "ARM64_DDC_7BIT_ADDRESS = 0x37"

text \<open>
  \<^verbatim>\<open>checksum(chk, data, start, end)\<close>: the loop \<^verbatim>\<open>for i in range(start, end + 1)\<close> visits the
  indices \<open>[start..end]\<close>, both ends included, and XORs \<^verbatim>\<open>data[i]\<close> into the accumulator.
\<close>

fun checksum_loop :: "int list \<Rightarrow> int list \<Rightarrow> int \<Rightarrow> error + int" where
  "checksum_loop data [] chkd = Inr chkd"
| "checksum_loop data (i # rest) chkd =
     (case getitem data i of
        Inl e \<Rightarrow> Inl e
      | Inr d \<Rightarrow> checksum_loop data rest (chkd XOR d))"

definition checksum :: "int \<Rightarrow> int list \<Rightarrow> int \<Rightarrow> int \<Rightarrow> error + int" where
  "checksum chk data start endi = checksum_loop data [start..endi] chk"

text \<open>
  Lines 110 to 117 of \<^verbatim>\<open>performDDCCommunication\<close> build the outgoing packet: the header
  byte, the length byte, the payload, a zero placeholder, which is then overwritten by the
  checksum of everything before it. The conditional expression binds weakest and the shift
  binds tighter than the XOR, so the seed is \<open>0x37 << 1\<close> for a payload of one byte and
  \<open>(0x37 << 1) ^ 0x51\<close> otherwise.
\<close>

fun append_each :: "int list \<Rightarrow> int list \<Rightarrow> error + int list" where
  "append_each packet [] = Inr packet"
| "append_each packet (b # rest) =
     (case bytearray_append packet b of
        Inl e \<Rightarrow> Inl e
      | Inr packet' \<Rightarrow> append_each packet' rest)"

definition packet_seed :: "nat \<Rightarrow> int" where
  "packet_seed n =
     (if n = 1 then push_bit 1 ARM64_DDC_7BIT_ADDRESS
      else push_bit 1 ARM64_DDC_7BIT_ADDRESS XOR ARM64_DDC_DATA_ADDRESS)"

definition build_packet :: "int list \<Rightarrow> error + int list" where
  "build_packet send =
     raise_bind (bytearray_append [] (0x80 OR (int (length send) + 1))) (\<lambda>p1.
     raise_bind (bytearray_append p1 (int (length send))) (\<lambda>p2.
     raise_bind (append_each p2 send) (\<lambda>p3.
     raise_bind (bytearray_append p3 0) (\<lambda>packet.
     raise_bind (checksum (packet_seed (length send)) packet 0 (int (length packet) - 2)) (\<lambda>c.
     bytearray_setitem packet (- 1) c)))))"

text \<open>
  Line 132 checks a reply: \<^verbatim>\<open>checksum(chk, rep, 0, len(rep) - 2) == rep[-1]\<close>, with
  \<open>chk = 0x50\<close>. The left operand is evaluated first. \<open>checksum_ok\<close> is that expression
  for any seed, \<open>validate_reply\<close> the instance the source uses.
\<close>

definition checksum_ok :: "int \<Rightarrow> int list \<Rightarrow> error + bool" where
  "checksum_ok chk rep =
     raise_bind (checksum chk rep 0 (int (length rep) - 2)) (\<lambda>c.
     raise_bind (getitem rep (- 1)) (\<lambda>l. Inr (c = l)))"

definition validate_reply :: "int list \<Rightarrow> error + bool" where
  "validate_reply rep = checksum_ok 0x50 rep"

text \<open>
  The validation as the specification words it: the fold runs over \<open>reply[0..len-2)\<close>,
  positions \<open>0\<close> through \<open>len - 3\<close>, and is compared with the final byte.
\<close>

definition spec_validate_reply :: "int list \<Rightarrow> bool" where
  "spec_validate_reply rep = (foldl (XOR) 0x50 (take (length rep - 2) rep) = last rep)"

section \<open>Transport exchange (pyddc/macos.py)\<close>

text \<open>
  The bus is outside the program. Within one call of \<^verbatim>\<open>performDDCCommunication\<close> the
  packet and the addresses never change, so what the bus answers can depend only on how
  many calls came before: \<open>write_status bus k packet\<close> is the status that the \<open>k\<close>-th call
  of \<^verbatim>\<open>IOAVServiceWriteI2C\<close> returns, \<open>read_result bus k\<close> the pair \<^verbatim>\<open>(ret, rep)\<close> that the
  \<open>k\<close>-th call of \<^verbatim>\<open>IOAVServiceReadI2C\<close> returns. The state threaded through the exchange
  counts the calls made so far. The calls of \<^verbatim>\<open>time.sleep\<close> and \<^verbatim>\<open>print\<close> have no effect on
  the values computed and are left out.
\<close>

record bus =
  write_status :: "nat \<Rightarrow> int list \<Rightarrow> int"
  read_result :: "nat \<Rightarrow> int \<times> int list"

record io_state =
  writes_done :: nat
  reads_done :: nat

definition IOAVServiceWriteI2C :: "bus \<Rightarrow> int list \<Rightarrow> io_state \<Rightarrow> int \<times> io_state" where
  "IOAVServiceWriteI2C b packet st =
     (write_status b (writes_done st) packet, st\<lparr>writes_done := Suc (writes_done st)\<rparr>)"

definition IOAVServiceReadI2C :: "bus \<Rightarrow> io_state \<Rightarrow> (int \<times> int list) \<times> io_state" where
  "IOAVServiceReadI2C b st =
     (read_result b (reads_done st), st\<lparr>reads_done := Suc (reads_done st)\<rparr>)"

text \<open>The inner loop, lines 124 to 126: every cycle overwrites \<^verbatim>\<open>success\<close> with the
  status of its own write.\<close>

fun write_cycles :: "bus \<Rightarrow> int list \<Rightarrow> nat \<Rightarrow> bool \<Rightarrow> io_state \<Rightarrow> bool \<times> io_state" where
  "write_cycles b packet 0 success st = (success, st)"
| "write_cycles b packet (Suc n) success st =
     (case IOAVServiceWriteI2C b packet st of
        (status, st') \<Rightarrow> write_cycles b packet n (status = 0) st')"

text \<open>One pass through the body of the outer loop, lines 124 to 132. The result is the
  value of \<^verbatim>\<open>success\<close> and of \<^verbatim>\<open>rep\<close> when line 133 is reached.\<close>

definition attempt :: "bus \<Rightarrow> int list \<Rightarrow> bool \<Rightarrow> int \<Rightarrow> bool \<Rightarrow> io_state
    \<Rightarrow> error + ((bool \<times> int list) \<times> io_state)" where
  "attempt b packet read_reply numOfWriteCycles success st =
     (case write_cycles b packet (nat (max numOfWriteCycles 1)) success st of
        (success1, st1) \<Rightarrow>
          if read_reply then
            (case IOAVServiceReadI2C b st1 of
               ((ret, rep), st2) \<Rightarrow>
                 if ret = 0 then
                   (case validate_reply rep of
                      Inl e \<Rightarrow> Inl e
                    | Inr ok \<Rightarrow> Inr ((ok, rep), st2))
                 else Inr ((success1, rep), st2))
          else Inr ((success1, []), st1))"

text \<open>The outer loop, lines 122 to 139, over the attempts that remain.\<close>

fun attempts :: "bus \<Rightarrow> int list \<Rightarrow> bool \<Rightarrow> int \<Rightarrow> nat \<Rightarrow> bool \<Rightarrow> int list \<Rightarrow> io_state
    \<Rightarrow> error + ((bool \<times> int list) \<times> io_state)" where
  "attempts b packet read_reply numOfWriteCycles 0 success rep st = Inr ((success, rep), st)"
| "attempts b packet read_reply numOfWriteCycles (Suc n) success rep st =
     (case attempt b packet read_reply numOfWriteCycles success st of
        Inl e \<Rightarrow> Inl e
      | Inr ((success', rep'), st') \<Rightarrow>
          if success' then Inr ((success', rep'), st')
          else attempts b packet read_reply numOfWriteCycles n success' rep' st')"

definition performDDCCommunication :: "bus option \<Rightarrow> int list \<Rightarrow> bool \<Rightarrow> int \<Rightarrow> int \<Rightarrow> io_state
    \<Rightarrow> error + ((bool \<times> int list) \<times> io_state)" where
  "performDDCCommunication ioavservice send read_reply numOfWriteCycles numOfRetryAttempts st =
     (case ioavservice of
        None \<Rightarrow> Inl AssertionError
      | Some b \<Rightarrow>
          raise_bind (build_packet send) (\<lambda>packet.
            attempts b packet read_reply numOfWriteCycles (nat numOfRetryAttempts) False [] st))"

text \<open>\<^verbatim>\<open>read\<close>, lines 77 to 97: a successful exchange is decoded from bytes 6 to 9 of the
  reply, an unsuccessful one gives \<^verbatim>\<open>None\<close>.\<close>

definition read :: "bus option \<Rightarrow> int \<Rightarrow> int \<Rightarrow> int \<Rightarrow> io_state
    \<Rightarrow> error + ((int \<times> int) option \<times> io_state)" where
  "read ioavservice command numOfWriteCycles numOfRetryAttempts st =
     raise_bind (performDDCCommunication ioavservice [command] True numOfWriteCycles
                   numOfRetryAttempts st) (\<lambda>((success, reply), st').
       if success then
         raise_bind (getitem reply 6) (\<lambda>r6.
         raise_bind (getitem reply 7) (\<lambda>r7.
         raise_bind (getitem reply 8) (\<lambda>r8.
         raise_bind (getitem reply 9) (\<lambda>r9.
           Inr (Some (r8 * 256 + r9, r6 * 256 + r7), st')))))
       else Inr (None, st'))"

section \<open>Device enumeration (pyddc/macos.py)\<close>

text \<open>
  A property read from the registry is a string, a number or a dictionary. Python tests
  such a value for truth: the empty string, zero and the empty dictionary count as false,
  and so does a property that is absent.
\<close>

datatype plist = PStr string | PInt int | PDict "(string \<times> plist) list"

fun truthy :: "plist option \<Rightarrow> bool" where
  "truthy None = False"
| "truthy (Some (PStr s)) = (s \<noteq> [])"
| "truthy (Some (PInt i)) = (i \<noteq> 0)"
| "truthy (Some (PDict kvs)) = (kvs \<noteq> [])"

text \<open>\<^verbatim>\<open>interest in name\<close> on strings: \<open>interest\<close> occurs in \<open>name\<close> as a contiguous
  piece.\<close>

fun starts_with :: "string \<Rightarrow> string \<Rightarrow> bool" where
  "starts_with name [] = True"
| "starts_with [] (c # cs) = False"
| "starts_with (d # ds) (c # cs) = (d = c \<and> starts_with ds cs)"

fun str_contains :: "string \<Rightarrow> string \<Rightarrow> bool" where
  "str_contains [] interest = (interest = [])"
| "str_contains (d # ds) interest = (starts_with (d # ds) interest \<or> str_contains ds interest)"

text \<open>
  The three operations the source applies to a property value: \<^verbatim>\<open>key in d\<close>, which on a
  string is the containment test above and on a number raises \<^verbatim>\<open>TypeError\<close>; \<^verbatim>\<open>d[key]\<close>,
  which raises \<^verbatim>\<open>KeyError\<close> for a key the dictionary lacks and \<^verbatim>\<open>TypeError\<close> on a string
  or a number; and \<^verbatim>\<open>d.get(key)\<close>, which only a dictionary has.
\<close>

fun plist_contains :: "plist \<Rightarrow> string \<Rightarrow> error + bool" where
  "plist_contains (PDict kvs) key = Inr (map_of kvs key \<noteq> None)"
| "plist_contains (PStr s) key = Inr (str_contains s key)"
| "plist_contains (PInt i) key = Inl TypeError"

fun plist_subscript :: "plist \<Rightarrow> string \<Rightarrow> error + plist" where
  "plist_subscript (PDict kvs) key =
     (case map_of kvs key of None \<Rightarrow> Inl KeyError | Some v \<Rightarrow> Inr v)"
| "plist_subscript (PStr s) key = Inl TypeError"
| "plist_subscript (PInt i) key = Inl TypeError"

fun dict_get :: "plist \<Rightarrow> string \<Rightarrow> error + plist option" where
  "dict_get (PDict kvs) key = Inr (map_of kvs key)"
| "dict_get (PStr s) key = Inl AttributeError"
| "dict_get (PInt i) key = Inl AttributeError"

text \<open>
  A node of the registry: the status and the name that \<^verbatim>\<open>IORegistryEntryGetName\<close> gives
  for it, its path, its properties by key, and the object (if any) that
  \<^verbatim>\<open>IOAVServiceCreateWithService\<close> creates for it. An iterator is the list of the nodes
  still to come, and \<^verbatim>\<open>IOIteratorNext\<close> returns \<^verbatim>\<open>MACH_PORT_NULL\<close> once the list is empty.
\<close>

record registry_entry =
  name_ret :: int
  entry_name :: string
  entry_path :: string
  properties :: "(string \<times> plist) list"
  av_service :: "nat option"

definition IORegistryEntryCreateCFProperty :: "registry_entry \<Rightarrow> string \<Rightarrow> plist option" where
  "IORegistryEntryCreateCFProperty entry key = map_of (properties entry) key"

record IOregService =
  edidUUID :: "plist option"
  manufacturerID :: "plist option"
  productName :: "plist option"
  serialNumber :: "plist option"
  alphanumericSerialNumber :: "plist option"
  location :: "plist option"
  ioDisplayLocation :: "string option"
  transportUpstream :: "plist option"
  transportDownstream :: "plist option"
  service :: "nat option"
  serviceLocation :: "int option"
  displayAttributes :: "plist option"

definition new_IOregService :: IOregService where
  "new_IOregService =
     \<lparr>edidUUID = None, manufacturerID = None, productName = None, serialNumber = None,
      alphanumericSerialNumber = None, location = None, ioDisplayLocation = None,
      transportUpstream = None, transportDownstream = None, service = None,
      serviceLocation = None, displayAttributes = None\<rparr>"

text \<open>\<^verbatim>\<open>getIORegServiceAppleCDC2Properties\<close>, lines 142 to 176.\<close>

definition set_product_attributes :: "plist \<Rightarrow> IOregService \<Rightarrow> error + IOregService" where
  "set_product_attributes displayAttrs sv =
     raise_bind (plist_contains displayAttrs ''ProductAttributes'') (\<lambda>present.
       if present then
         raise_bind (plist_subscript displayAttrs ''ProductAttributes'') (\<lambda>productAttributes.
         raise_bind (dict_get productAttributes ''ManufacturerID'') (\<lambda>m.
         raise_bind (dict_get productAttributes ''ProductName'') (\<lambda>p.
         raise_bind (dict_get productAttributes ''SerialNumber'') (\<lambda>n.
         raise_bind (dict_get productAttributes ''AlphanumericSerialNumber'') (\<lambda>a.
           Inr (sv\<lparr>manufacturerID := m, productName := p, serialNumber := n,
                   alphanumericSerialNumber := a\<rparr>))))))
       else Inr sv)"

definition getIORegServiceAppleCDC2Properties :: "registry_entry \<Rightarrow> error + IOregService" where
  "getIORegServiceAppleCDC2Properties entry =
     (let sv0 = new_IOregService;
          uuid = IORegistryEntryCreateCFProperty entry ''EDID UUID'';
          sv1 = (if truthy uuid then sv0\<lparr>edidUUID := uuid\<rparr> else sv0);
          sv2 = sv1\<lparr>ioDisplayLocation := Some (entry_path entry)\<rparr>;
          attrs = IORegistryEntryCreateCFProperty entry ''DisplayAttributes''
      in raise_bind
           (case (if truthy attrs then attrs else None) of
              None \<Rightarrow> Inr sv2
            | Some displayAttrs \<Rightarrow>
                set_product_attributes displayAttrs (sv2\<lparr>displayAttributes := attrs\<rparr>)) (\<lambda>sv3.
         let tr = IORegistryEntryCreateCFProperty entry ''Transport''
         in case (if truthy tr then tr else None) of
              None \<Rightarrow> Inr sv3
            | Some transport \<Rightarrow>
                raise_bind (dict_get transport ''Upstream'') (\<lambda>up.
                raise_bind (dict_get transport ''Downstream'') (\<lambda>down.
                  Inr (sv3\<lparr>transportUpstream := up, transportDownstream := down\<rparr>)))))"

text \<open>\<^verbatim>\<open>setIORegServiceDCPAVServiceProxy\<close>, lines 179 to 189. The source changes the
  object it is given; the model returns the changed object.\<close>

definition setIORegServiceDCPAVServiceProxy :: "registry_entry \<Rightarrow> IOregService \<Rightarrow> IOregService" where
  "setIORegServiceDCPAVServiceProxy entry ioregService =
     (let loc = IORegistryEntryCreateCFProperty entry ''Location''
      in if truthy loc then
           (if loc = Some (PStr ''External'')
            then ioregService\<lparr>location := loc, service := av_service entry\<rparr>
            else ioregService\<lparr>location := loc\<rparr>)
         else ioregService)"

text \<open>\<^verbatim>\<open>ioregIterateToNextObjectOfInterest\<close>, lines 192 to 214. The result is the object
  of interest, if one is found, and the iterator as the call leaves it.\<close>

record ObjectOfInterest =
  ooi_name :: string
  ooi_entry :: registry_entry
  ooi_preceedingEntry :: "registry_entry option"

fun ioregIterateToNextObjectOfInterest ::
    "string list \<Rightarrow> registry_entry list \<Rightarrow> registry_entry option
      \<Rightarrow> ObjectOfInterest option \<times> registry_entry list" where
  "ioregIterateToNextObjectOfInterest interests [] entry = (None, [])"
| "ioregIterateToNextObjectOfInterest interests (e # iterator) entry =
     (if name_ret e \<noteq> KERN_SUCCESS then (None, iterator)
      else if list_ex (str_contains (entry_name e)) interests
        then (Some \<lparr>ooi_name = entry_name e, ooi_entry = e, ooi_preceedingEntry = entry\<rparr>,
              iterator)
      else ioregIterateToNextObjectOfInterest interests iterator (Some e))"

text \<open>
  \<^verbatim>\<open>getIoregServicesForMatching\<close>, lines 217 to 251. The source keeps one
  \<^verbatim>\<open>IOregService\<close> object in the variable \<^verbatim>\<open>ioregService\<close>, changes it in place and
  appends that same object to the list at every proxy node, so two entries of the list can
  be one object. The model therefore keeps the objects in a store and the list holds their
  addresses. The two releases of the \<^verbatim>\<open>finally\<close> clause change nothing that is returned.
\<close>

type_synonym addr = nat

record matching_state =
  serviceLocation_var :: int
  ioregServicesForMatching :: "addr list"
  ioregService :: addr
  store :: "addr \<Rightarrow> IOregService"
  next_free :: addr

definition keyDCPAVServiceProxy :: string where
  "keyDCPAVServiceProxy = ''DCPAVServiceProxy''"

definition keysFramebuffer :: "string list" where
  "keysFramebuffer = [''AppleCLCD2'', ''IOMobileFramebufferShim'']"

definition start_handle :: "IOregService \<Rightarrow> matching_state \<Rightarrow> matching_state" where
  "start_handle sv st =
     st\<lparr>ioregService := next_free st,
        store := (store st)(next_free st :=
                    sv\<lparr>serviceLocation := Some (serviceLocation_var st + 1)\<rparr>),
        next_free := Suc (next_free st),
        serviceLocation_var := serviceLocation_var st + 1\<rparr>"

definition bind_proxy :: "registry_entry \<Rightarrow> matching_state \<Rightarrow> matching_state" where
  "bind_proxy entry st =
     st\<lparr>store := (store st)(ioregService st :=
                    setIORegServiceDCPAVServiceProxy entry (store st (ioregService st))),
        ioregServicesForMatching := ioregServicesForMatching st @ [ioregService st]\<rparr>"

function matching_loop :: "registry_entry list \<Rightarrow> matching_state \<Rightarrow> error + matching_state" where
  "matching_loop iterator st =
     (case ioregIterateToNextObjectOfInterest ([keyDCPAVServiceProxy] @ keysFramebuffer)
             iterator None of
        (None, iterator') \<Rightarrow> Inr st
      | (Some objectOfInterest, iterator') \<Rightarrow>
          if ooi_name objectOfInterest \<in> set keysFramebuffer then
            (case getIORegServiceAppleCDC2Properties (ooi_entry objectOfInterest) of
               Inl e \<Rightarrow> Inl e
             | Inr sv \<Rightarrow> matching_loop iterator' (start_handle sv st))
          else if ooi_name objectOfInterest = keyDCPAVServiceProxy then
            matching_loop iterator' (bind_proxy (ooi_entry objectOfInterest) st)
          else matching_loop iterator' st)"
  by pat_completeness auto
termination
proof -
  have shorter: "length it' < length it"
    if "(Some obj, it') = ioregIterateToNextObjectOfInterest ins it e"
    for ins it e obj it'
    using that
  proof (induction it arbitrary: e)
    case Nil
    then show ?case by simp
  next
    case (Cons a it)
    then show ?case by (fastforce split: if_splits)
  qed
  show ?thesis
    by (relation "measure (\<lambda>(iterator, st). length iterator)") (auto dest: shorter)
qed

declare matching_loop.simps [simp del]

text \<open>
  What the registry answers: the status of \<^verbatim>\<open>IORegistryEntryCreateIterator\<close> and the
  nodes its iterator walks through. Line 236 creates the first object, at address 0,
  before the loop starts.
\<close>

record registry =
  create_ret :: int
  tree :: "registry_entry list"

definition initial_matching_state :: matching_state where
  "initial_matching_state =
     \<lparr>serviceLocation_var = 0, ioregServicesForMatching = [], ioregService = 0,
      store = (\<lambda>a. new_IOregService), next_free = 1\<rparr>"

definition getIoregServicesForMatching :: "registry \<Rightarrow> error + (addr list \<times> (addr \<Rightarrow> IOregService))" where
  "getIoregServicesForMatching reg =
     (if create_ret reg \<noteq> KERN_SUCCESS then Inr ([], \<lambda>a. new_IOregService)
      else
        (case matching_loop (tree reg) initial_matching_state of
           Inl e \<Rightarrow> Inl e
         | Inr st \<Rightarrow> Inr (ioregServicesForMatching st, store st)))"

text \<open>Lines 255 and 256: the displays that are used are those whose object has a
  service.\<close>

definition ddc_displays :: "registry \<Rightarrow> error + (addr list \<times> (addr \<Rightarrow> IOregService))" where
  "ddc_displays reg =
     (case getIoregServicesForMatching reg of
        Inl e \<Rightarrow> Inl e
      | Inr (displays, h) \<Rightarrow> Inr (filter (\<lambda>d. service (h d) \<noteq> None) displays, h))"

text \<open>
  The tests that the loop and the functions it calls make on a node: whether
  \<^verbatim>\<open>IORegistryEntryGetName\<close> succeeds for it (line 204), whether its name is one of
  \<^verbatim>\<open>keysFramebuffer\<close> (line 241), whether it is \<^verbatim>\<open>keyDCPAVServiceProxy\<close> (line 245), and
  whether its location is \<open>External\<close> (line 187).
\<close>

definition readable_node :: "registry_entry \<Rightarrow> bool" where
  "readable_node e = (name_ret e = KERN_SUCCESS)"

definition is_framebuffer :: "registry_entry \<Rightarrow> bool" where
  "is_framebuffer e = (entry_name e \<in> set keysFramebuffer)"

definition is_proxy :: "registry_entry \<Rightarrow> bool" where
  "is_proxy e = (entry_name e = keyDCPAVServiceProxy)"

definition is_external :: "registry_entry \<Rightarrow> bool" where
  "is_external e = (IORegistryEntryCreateCFProperty e ''Location'' = Some (PStr ''External''))"

text \<open>
  The channel that the nodes following a framebuffer node leave on the handle it started:
  among the nodes up to the next framebuffer node, or up to the first node whose name
  cannot be read, the last proxy node whose location is \<open>External\<close> gives the channel, and
  without such a node there is none. The enumeration is compared with this below.
\<close>

definition attached_channel :: "registry_entry list \<Rightarrow> nat option" where
  "attached_channel nodes =
     (let ext = filter (\<lambda>e. is_proxy e \<and> is_external e)
                  (takeWhile (\<lambda>e. readable_node e \<and> \<not> is_framebuffer e) nodes)
      in if ext = [] then None else av_service (last ext))"

section \<open>Feature operations (monitorboss/impl.py, test/pyddc/vcp_dummy.py)\<close>

text \<open>
  The classes \<^verbatim>\<open>VCPCommand\<close>, \<^verbatim>\<open>VCPFeatureReturn\<close> and \<^verbatim>\<open>ABCVCP\<close> of the package
  \<^verbatim>\<open>pyddc\<close> are used by the two files but are not among the sources. The two records
  carry the attributes that the sources read from them.
\<close>

record VCPCommand =
  code :: int
  discrete :: bool
  readable :: bool
  writeable :: bool

record VCPFeatureReturn =
  fr_value :: int
  fr_max :: int

text \<open>
  A monitor object as \<^verbatim>\<open>impl.py\<close> sees it: the two public methods it calls, each taking
  the state of the world and returning the new one. The \<^verbatim>\<open>timeout\<close> argument is a float
  that the test double drops unused; it is left out.
\<close>

record 's VCP =
  set_vcp_feature :: "VCPCommand \<Rightarrow> int \<Rightarrow> 's \<Rightarrow> (error + unit) \<times> 's"
  get_vcp_feature :: "VCPCommand \<Rightarrow> 's \<Rightarrow> (error + VCPFeatureReturn) \<times> 's"

subsection \<open>monitorboss/impl.py\<close>

text \<open>\<open>get_vcps\<close> is what \<^verbatim>\<open>VCP.get_vcps()\<close> gives: the list of monitors or an exception.\<close>

definition list_monitors :: "error + 's VCP list \<Rightarrow> error + 's VCP list" where
  "list_monitors get_vcps =
     (case get_vcps of
        Inl VCPError \<Rightarrow> Inl (MonitorBossError FailedToList)
      | Inl e \<Rightarrow> Inl e
      | Inr monitors \<Rightarrow> Inr monitors)"

definition get_monitor :: "error + 's VCP list \<Rightarrow> int \<Rightarrow> error + 's VCP" where
  "get_monitor get_vcps mon =
     raise_bind (list_monitors get_vcps) (\<lambda>monitors.
       case getitem monitors mon of
         Inl IndexError \<Rightarrow> Inl (MonitorBossError NoSuchMonitor)
       | Inl e \<Rightarrow> Inl e
       | Inr monitor \<Rightarrow> Inr monitor)"

definition get_attribute :: "error + 's VCP list \<Rightarrow> int \<Rightarrow> VCPCommand \<Rightarrow> 's
    \<Rightarrow> (error + VCPFeatureReturn) \<times> 's" where
  "get_attribute get_vcps mon attr s =
     (case get_monitor get_vcps mon of
        Inl e \<Rightarrow> (Inl e, s)
      | Inr monitor \<Rightarrow>
          (case get_vcp_feature monitor attr s of
             (Inl VCPError, s') \<Rightarrow> (Inl (MonitorBossError CouldNotGet), s')
           | (Inl TypeError, s') \<Rightarrow> (Inl (MonitorBossError NotReadable), s')
           | (Inl e, s') \<Rightarrow> (Inl e, s')
           | (Inr val, s') \<Rightarrow> (Inr val, s')))"

definition set_attribute :: "error + 's VCP list \<Rightarrow> int \<Rightarrow> VCPCommand \<Rightarrow> int \<Rightarrow> 's
    \<Rightarrow> (error + int) \<times> 's" where
  "set_attribute get_vcps mon attr val s =
     (case get_monitor get_vcps mon of
        Inl e \<Rightarrow> (Inl e, s)
      | Inr monitor \<Rightarrow>
          (case set_vcp_feature monitor attr val s of
             (Inl VCPError, s') \<Rightarrow> (Inl (MonitorBossError CouldNotSet), s')
           | (Inl TypeError, s') \<Rightarrow> (Inl (MonitorBossError NotWriteable), s')
           | (Inl ValueError, s') \<Rightarrow> (Inl (MonitorBossError AboveMax), s')
           | (Inl e, s') \<Rightarrow> (Inl e, s')
           | (Inr u, s') \<Rightarrow> (Inr val, s')))"

record ToggledAttribute =
  old :: int
  new :: int

definition toggle_attribute :: "error + 's VCP list \<Rightarrow> int \<Rightarrow> VCPCommand \<Rightarrow> int \<Rightarrow> int \<Rightarrow> 's
    \<Rightarrow> (error + ToggledAttribute) \<times> 's" where
  "toggle_attribute get_vcps mon attr val1 val2 s =
     (case get_attribute get_vcps mon attr s of
        (Inl e, s1) \<Rightarrow> (Inl e, s1)
      | (Inr r, s1) \<Rightarrow>
          (let cur_val = fr_value r;
               new_val = (if cur_val = val1 then val2 else val1)
           in case set_attribute get_vcps mon attr new_val s1 of
                (Inl e, s2) \<Rightarrow> (Inl e, s2)
              | (Inr v, s2) \<Rightarrow> (Inr \<lparr>old = cur_val, new = new_val\<rparr>, s2)))"

subsection \<open>test/pyddc/vcp_dummy.py\<close>

text \<open>
  The three module-level dictionaries. \<^verbatim>\<open>supported_codes\<close> maps a code to \<^verbatim>\<open>None\<close> (a
  continuous feature) or to the list of its parameters; \<^verbatim>\<open>current_values\<close> is the only
  one that changes and is the state of the test double, shared by all its monitors.
\<close>

definition supported_codes :: "int \<rightharpoonup> int list option" where
  "supported_codes =
     [4 \<mapsto> Some [], 16 \<mapsto> None, 18 \<mapsto> None, 96 \<mapsto> Some [27, 15, 17], 170 \<mapsto> Some [1, 2, 4]]"

definition unknown_max_values :: "int \<rightharpoonup> int" where
  "unknown_max_values = [16 \<mapsto> 80, 18 \<mapsto> 100]"

type_synonym current_values = "int \<rightharpoonup> int"

definition initial_current_values :: current_values where
  "initial_current_values = [16 \<mapsto> 75, 18 \<mapsto> 75, 96 \<mapsto> 27, 170 \<mapsto> 2]"

text \<open>\<^verbatim>\<open>DummyVCP._set_vcp_feature\<close>, lines 38 to 56.\<close>

definition DummyVCP_set_vcp_feature :: "VCPCommand \<Rightarrow> int \<Rightarrow> current_values
    \<Rightarrow> (error + unit) \<times> current_values" where
  "DummyVCP_set_vcp_feature com val cv =
     (case supported_codes (code com) of
        None \<Rightarrow> (Inl OSError, cv)
      | Some None \<Rightarrow>
          (case unknown_max_values (code com) of
             None \<Rightarrow> (Inl KeyError, cv)
           | Some m \<Rightarrow>
               if val > m then (Inl ValueError, cv)
               else (Inr (), cv(code com \<mapsto> val)))
      | Some (Some params) \<Rightarrow>
          if val \<in> set params then (Inr (), cv(code com \<mapsto> val))
          else (Inl OSError, cv))"

text \<open>\<^verbatim>\<open>DummyVCP._get_vcp_feature\<close>, lines 58 to 71.\<close>

definition DummyVCP_get_vcp_feature :: "VCPCommand \<Rightarrow> current_values
    \<Rightarrow> (error + VCPFeatureReturn) \<times> current_values" where
  "DummyVCP_get_vcp_feature com cv =
     (case supported_codes (code com) of
        None \<Rightarrow> (Inl OSError, cv)
      | Some params \<Rightarrow>
          (case (if \<not> discrete com
                 then (case unknown_max_values (code com) of
                         None \<Rightarrow> Inl KeyError
                       | Some m \<Rightarrow> Inr m)
                 else Inr 0) of
             Inl e \<Rightarrow> (Inl e, cv)
           | Inr maxv \<Rightarrow>
               (case cv (code com) of
                  None \<Rightarrow> (Inl KeyError, cv)
                | Some cur \<Rightarrow> (Inr \<lparr>fr_value = cur, fr_max = maxv\<rparr>, cv))))"

text \<open>
  Modelled from the spec: the public methods \<^verbatim>\<open>set_vcp_feature\<close> and \<^verbatim>\<open>get_vcp_feature\<close>
  of the base class \<^verbatim>\<open>ABCVCP\<close>, which \<^verbatim>\<open>DummyVCP\<close> inherits and \<^verbatim>\<open>impl.py\<close> calls, are not
  among the sources, and neither is the registry of commands. Section 4.4 of the
  specification: setting "fails with Unsupported if not writable; fails with
  ValueOutOfRange if value exceeds the declared maximum for a continuous feature, or is
  absent from param_names's value set for a discrete feature; else exchanges a multi-byte
  payload"; getting "fails with Unsupported if not readable; else exchanges a 1-byte
  payload". The exchange is the method of the subclass, which is the only part that
  reaches the bus. What the registry declares for a command, the maximum of a continuous
  feature (if it declares one) and the values of \<^verbatim>\<open>param_names\<close>, are parameters of the
  model. \<^verbatim>\<open>impl.py\<close> takes a \<^verbatim>\<open>TypeError\<close> from these methods to mean that the feature is
  not writeable or not readable, and a \<^verbatim>\<open>ValueError\<close> to mean a value above the maximum,
  so these are the exceptions of the model.
\<close>

definition ABCVCP_set_vcp_feature ::
    "(VCPCommand \<Rightarrow> int option) \<Rightarrow> (VCPCommand \<Rightarrow> int list)
      \<Rightarrow> (VCPCommand \<Rightarrow> int \<Rightarrow> 's \<Rightarrow> (error + unit) \<times> 's) \<Rightarrow> VCPCommand \<Rightarrow> int \<Rightarrow> 's
      \<Rightarrow> (error + unit) \<times> 's" where
  "ABCVCP_set_vcp_feature declared_maximum param_values sub_set com val s =
     (if \<not> writeable com then (Inl TypeError, s)
      else if \<not> discrete com
              \<and> (case declared_maximum com of None \<Rightarrow> False | Some m \<Rightarrow> val > m)
        then (Inl ValueError, s)
      else if discrete com \<and> val \<notin> set (param_values com) then (Inl ValueError, s)
      else sub_set com val s)"

definition ABCVCP_get_vcp_feature ::
    "(VCPCommand \<Rightarrow> 's \<Rightarrow> (error + VCPFeatureReturn) \<times> 's) \<Rightarrow> VCPCommand \<Rightarrow> 's
      \<Rightarrow> (error + VCPFeatureReturn) \<times> 's" where
  "ABCVCP_get_vcp_feature sub_get com s =
     (if \<not> readable com then (Inl TypeError, s) else sub_get com s)"

text \<open>
  Modelled from the spec: for the test double, what is declared for a command is what the
  tables of \<^verbatim>\<open>vcp_dummy.py\<close> hold for its code: \<^verbatim>\<open>unknown_max_values\<close> has the maximum of a
  continuous feature and \<^verbatim>\<open>supported_codes\<close> the parameters ("params") of a discrete one.
\<close>

definition DummyVCP_declared_maximum :: "VCPCommand \<Rightarrow> int option" where
  "DummyVCP_declared_maximum com = unknown_max_values (code com)"

definition DummyVCP_param_values :: "VCPCommand \<Rightarrow> int list" where
  "DummyVCP_param_values com =
     (case supported_codes (code com) of Some (Some params) \<Rightarrow> params | _ \<Rightarrow> [])"

definition DummyVCP :: "current_values VCP" where
  "DummyVCP =
     \<lparr>set_vcp_feature =
        ABCVCP_set_vcp_feature DummyVCP_declared_maximum DummyVCP_param_values
          DummyVCP_set_vcp_feature,
      get_vcp_feature = ABCVCP_get_vcp_feature DummyVCP_get_vcp_feature\<rparr>"

text \<open>\<^verbatim>\<open>DummyVCP.get_vcps\<close>, lines 77 to 79.\<close>

definition DummyVCP_get_vcps :: "error + current_values VCP list" where
  "DummyVCP_get_vcps = Inr [DummyVCP, DummyVCP, DummyVCP]"

text \<open>The values that \<^verbatim>\<open>_set_vcp_feature\<close> stores for a code: up to the maximum for a
  continuous feature, one of the listed parameters for a discrete one.\<close>

definition DummyVCP_accepts :: "int \<Rightarrow> int \<Rightarrow> bool" where
  "DummyVCP_accepts c v =
     (case supported_codes c of
        None \<Rightarrow> False
      | Some None \<Rightarrow> (case unknown_max_values c of None \<Rightarrow> False | Some m \<Rightarrow> v \<le> m)
      | Some (Some params) \<Rightarrow> v \<in> set params)"

section \<open>Properties of the packet codec\<close>

subsection \<open>The checksum as a fold\<close>

lemma checksum_loop_upt:
  "k + m \<le> length data \<Longrightarrow>
   checksum_loop data (map int [k..<k + m]) c = Inr (foldl (XOR) c (take m (drop k data)))"
proof (induction m arbitrary: k c)
  case 0
  then show ?case by simp
next
  case (Suc m)
  from Suc.prems have k: "k < length data" by simp
  have idx: "[k..<k + Suc m] = k # [Suc k..<Suc k + m]"
    by (simp add: upt_conv_Cons)
  have tk: "take (Suc m) (drop k data) = data ! k # take m (drop (Suc k) data)"
    using k by (simp add: Cons_nth_drop_Suc [symmetric])
  from Suc.prems have le: "Suc k + m \<le> length data" by simp
  have "checksum_loop data (map int [k..<k + Suc m]) c
      = checksum_loop data (int k # map int [Suc k..<Suc k + m]) c"
    by (simp only: idx list.map)
  also have "\<dots> = checksum_loop data (map int [Suc k..<Suc k + m]) (c XOR data ! k)"
    using k by (simp add: getitem_def)
  also have "\<dots> = Inr (foldl (XOR) (c XOR data ! k) (take m (drop (Suc k) data)))"
    by (rule Suc.IH [OF le])
  also have "\<dots> = Inr (foldl (XOR) c (take (Suc m) (drop k data)))"
    by (simp only: tk foldl_Cons)
  finally show ?case .
qed

lemma upto_as_upt: "[0..int n - 1] = map int [0..<n]"
proof (induction n)
  case 0
  show ?case by simp
next
  case (Suc n)
  have "[0..int (Suc n) - 1] = [0..int n - 1] @ [int n]"
    using upto_rec2 [of 0 "int n"] by simp
  with Suc show ?case by simp
qed

lemma checksum_all_but_last:
  "checksum chk data 0 (int (length data) - 2) = Inr (foldl (XOR) chk (butlast data))"
proof -
  have "[0..int (length data) - 2] = map int [0..<0 + (length data - 1)]"
  proof (cases data)
    case Nil
    then show ?thesis by simp
  next
    case (Cons a as)
    then have "int (length data) - 2 = int (length data - 1) - 1" by simp
    then show ?thesis by (simp only: upto_as_upt add_0)
  qed
  moreover have "0 + (length data - 1) \<le> length data" by simp
  ultimately show ?thesis
    unfolding checksum_def
    using checksum_loop_upt [of 0 "length data - 1" data chk]
    by (simp add: butlast_conv_take)
qed

lemma getitem_last: "getitem rep (- 1) = (if rep = [] then Inl IndexError else Inr (last rep))"
  by (cases rep rule: rev_cases) (simp_all add: getitem_def)

lemma checksum_ok_eq:
  "checksum_ok chk rep =
     (if rep = [] then Inl IndexError else Inr (foldl (XOR) chk (butlast rep) = last rep))"
  by (simp add: checksum_ok_def checksum_all_but_last getitem_last raise_bind_def)

lemma checksum_ok_snoc: "checksum_ok c (body @ [l]) = Inr (foldl (XOR) c body = l)"
  by (simp only: checksum_ok_eq butlast_snoc last_snoc) simp

subsection \<open>XOR folds over integers\<close>

lemma xor_cancel_neq: "(x::int) \<noteq> y \<Longrightarrow> c XOR x \<noteq> c XOR y"
  by (metis bit.xor_left_self xor.left_commute xor.assoc bit.xor_self xor.left_neutral)

lemma xor_eq_self_iff: "((x::int) XOR y XOR z = x) = (y = z)"
proof
  assume a: "x XOR y XOR z = x"
  show "y = z"
  proof (rule ccontr)
    assume "y \<noteq> z"
    then have "y XOR y \<noteq> y XOR z" by (rule xor_cancel_neq)
    then have "y XOR z \<noteq> 0" by simp
    then have "x XOR 0 \<noteq> x XOR (y XOR z)" by (metis xor_cancel_neq)
    with a show False by simp
  qed
next
  assume "y = z" then show "x XOR y XOR z = x" by simp
qed

lemma foldl_xor_seed: "foldl (XOR) (c::int) bs = c XOR foldl (XOR) 0 bs"
proof (induction bs arbitrary: c)
  case Nil show ?case by simp
next
  case (Cons b bs)
  have "foldl (XOR) (c XOR b) bs = (c XOR b) XOR foldl (XOR) 0 bs" by (rule Cons.IH)
  moreover have "foldl (XOR) (0 XOR b) bs = b XOR foldl (XOR) 0 bs" using Cons.IH [of b] by simp
  ultimately show ?case by (simp add: xor.assoc)
qed

lemma foldl_xor_seed_inj: "(foldl (XOR) (c::int) bs = foldl (XOR) d bs) = (c = d)"
proof -
  have "foldl (XOR) c bs = c XOR foldl (XOR) 0 bs" by (rule foldl_xor_seed)
  moreover have "foldl (XOR) d bs = d XOR foldl (XOR) 0 bs" by (rule foldl_xor_seed)
  ultimately show ?thesis by (metis xor_cancel_neq xor.commute)
qed

lemma foldl_xor_update:
  "i < length bs \<Longrightarrow> foldl (XOR) (c::int) (bs[i := b]) = foldl (XOR) c bs XOR (bs ! i) XOR b"
proof (induction bs arbitrary: c i)
  case Nil then show ?case by simp
next
  case (Cons a as)
  show ?case
  proof (cases i)
    case 0
    have "foldl (XOR) (c XOR b) as = (c XOR b) XOR foldl (XOR) 0 as" by (rule foldl_xor_seed)
    moreover have "foldl (XOR) (c XOR a) as = (c XOR a) XOR foldl (XOR) 0 as" by (rule foldl_xor_seed)
    ultimately show ?thesis using 0
      by (simp add: ac_simps)
  next
    case (Suc j)
    with Cons.prems have "j < length as" by simp
    from Cons.IH [OF this] show ?thesis using Suc by simp
  qed
qed

lemma checksum_ok_flip:
  assumes i: "i < length body" and ne: "b \<noteq> body ! i"
  shows "checksum_ok c ((body @ [foldl (XOR) c body])[i := b]) = Inr False"
proof -
  have upd: "(body @ [foldl (XOR) c body])[i := b] = body[i := b] @ [foldl (XOR) c body]"
    using i by (simp add: list_update_append1)
  have "foldl (XOR) c (body[i := b]) \<noteq> foldl (XOR) c body"
    using ne by (simp only: foldl_xor_update [OF i] xor_eq_self_iff)
  then show ?thesis by (simp only: upd checksum_ok_snoc)
qed

subsection \<open>The packet that is built\<close>

lemma append_each_bytes:
  "\<forall>b\<in>set send. is_byte b \<Longrightarrow> append_each packet send = Inr (packet @ send)"
  by (induction send arbitrary: packet) (simp_all add: bytearray_append_def)

lemma is_byte_xor: "is_byte a \<Longrightarrow> is_byte b \<Longrightarrow> is_byte (a XOR b)"
  using XOR_upper [of a 8 b] by (simp add: is_byte_def)

lemma is_byte_foldl_xor:
  "is_byte c \<Longrightarrow> \<forall>b\<in>set bs. is_byte b \<Longrightarrow> is_byte (foldl (XOR) c bs)"
  by (induction bs arbitrary: c) (simp_all add: is_byte_xor)

lemma is_byte_header: "n \<le> 254 \<Longrightarrow> is_byte (0x80 OR (int n + 1))"
  using OR_upper [of "0x80" 8 "int n + 1"] by (simp add: is_byte_def)

lemma is_byte_packet_seed: "is_byte (packet_seed n)"
  by (simp add: packet_seed_def is_byte_def ARM64_DDC_7BIT_ADDRESS_def ARM64_DDC_DATA_ADDRESS_def)

lemma packet_seed_not_reply_seed: "packet_seed n \<noteq> 0x50"
  by (simp add: packet_seed_def ARM64_DDC_7BIT_ADDRESS_def ARM64_DDC_DATA_ADDRESS_def)

lemma setitem_last:
  "is_byte c \<Longrightarrow> bytearray_setitem (body @ [z]) (- 1) c = Inr (body @ [c])"
  by (simp add: bytearray_setitem_def)

lemma build_packet_eq:
  assumes len: "length send \<le> 254" and bytes: "\<forall>b\<in>set send. is_byte b"
  shows "build_packet send =
    Inr ([0x80 OR (int (length send) + 1), int (length send)] @ send @
         [foldl (XOR) (packet_seed (length send))
            ([0x80 OR (int (length send) + 1), int (length send)] @ send)])"
proof -
  let ?h = "0x80 OR (int (length send) + 1)"
  let ?body = "[?h, int (length send)] @ send"
  have h: "is_byte ?h" using len by (rule is_byte_header)
  have n: "is_byte (int (length send))" using len by (simp add: is_byte_def)
  have body: "\<forall>b\<in>set ?body. is_byte b" using h n bytes by simp
  have c: "is_byte (foldl (XOR) (packet_seed (length send)) ?body)"
    using is_byte_packet_seed body by (rule is_byte_foldl_xor)
  have chk: "checksum (packet_seed (length send)) (?body @ [0]) 0 (int (length (?body @ [0])) - 2)
      = Inr (foldl (XOR) (packet_seed (length send)) ?body)"
    by (simp only: checksum_all_but_last butlast_snoc)
  have z: "is_byte 0" by (simp add: is_byte_def)
  have "build_packet send = bytearray_setitem (?body @ [0]) (- 1)
      (foldl (XOR) (packet_seed (length send)) ?body)"
    unfolding build_packet_def using h n z chk
    by (simp add: raise_bind_def bytearray_append_def append_each_bytes [OF bytes])
  also have "\<dots> = Inr (?body @ [foldl (XOR) (packet_seed (length send)) ?body])"
    using c by (rule setitem_last)
  finally show ?thesis by simp
qed

subsection \<open>Claims about the codec\<close>

text \<open>
  C2, as amended. The reply check folds, from the seed \<open>0x50\<close>, every byte of the reply but
  the last, that is positions \<open>0\<close> through \<open>len - 2\<close>, and accepts exactly when the fold
  equals the last byte, at position \<open>len - 1\<close>. On an empty reply the comparison raises
  \<^verbatim>\<open>IndexError\<close>.
\<close>

theorem validate_reply_folds_all_but_last:
  "validate_reply rep =
     (if rep = [] then Inl IndexError
      else Inr (foldl (XOR) 0x50 (take (length rep - 1) rep) = rep ! (length rep - 1)))"
  by (simp add: validate_reply_def checksum_ok_eq butlast_conv_take last_conv_nth)

text \<open>The amended statement at a reply of eleven bytes.\<close>

theorem validate_reply_folds_all_but_last_witness:
  "validate_reply [0, 0, 0, 0, 0, 0, 0, 0, 0, 1, 0x51] = Inr True"
  using validate_reply_folds_all_but_last [of "[0, 0, 0, 0, 0, 0, 0, 0, 0, 1, 0x51]"]
  by simp

text \<open>
  C2 as the specification states it, with the fold stopping at position \<open>len - 3\<close>, fails:
  this reply of eleven bytes is accepted by the source, while the fold over positions
  \<open>0\<close> through \<open>8\<close> differs from the last byte.
\<close>

theorem validate_reply_spec_range_counterexample:
  "validate_reply [0, 0, 0, 0, 0, 0, 0, 0, 0, 1, 0x51] = Inr True
   \<and> \<not> spec_validate_reply [0, 0, 0, 0, 0, 0, 0, 0, 0, 1, 0x51]"
  by (simp add: validate_reply_def checksum_ok_eq spec_validate_reply_def)

text \<open>From 255 bytes of payload on, the header byte is not a byte.\<close>

lemma header_too_large: "255 \<le> n \<Longrightarrow> \<not> is_byte (0x80 OR (int n + 1))"
proof -
  assume a: "255 \<le> n"
  have "int n + 1 \<le> (int n + 1) OR 0x80" by (rule or_greater_eq) simp
  then have "int n + 1 \<le> 0x80 OR (int n + 1)" by (simp only: or.commute)
  with a show ?thesis by (simp add: is_byte_def)
qed

lemma build_packet_too_long: "255 \<le> length send \<Longrightarrow> build_packet send = Inl ValueError"
  using header_too_large [of "length send"]
  by (simp add: build_packet_def bytearray_append_def raise_bind_def)

text \<open>
  C4, as amended. For every payload of \<open>n\<close> bytes with \<open>1 \<le> n \<le> 254\<close>, the packet built is
  the header byte \<open>0x80 | (n + 1)\<close>, the byte \<open>n\<close>, the payload, and the checksum; the
  checksum is the XOR fold of all the bytes before it, from the seed \<open>0x37 << 1\<close> if
  \<open>n = 1\<close> and \<open>(0x37 << 1) ^ 0x51\<close> otherwise. For every payload of 255 elements or more
  the header byte exceeds 255 and building the packet raises \<^verbatim>\<open>ValueError\<close>.
\<close>

theorem build_packet_layout:
  "(1 \<le> length send \<and> length send \<le> 254 \<and> (\<forall>b\<in>set send. is_byte b) \<longrightarrow>
      build_packet send =
        Inr ([0x80 OR (int (length send) + 1), int (length send)] @ send @
             [foldl (XOR)
                (if length send = 1 then push_bit 1 ARM64_DDC_7BIT_ADDRESS
                 else push_bit 1 ARM64_DDC_7BIT_ADDRESS XOR ARM64_DDC_DATA_ADDRESS)
                ([0x80 OR (int (length send) + 1), int (length send)] @ send)]))
   \<and> (255 \<le> length send \<longrightarrow> build_packet send = Inl ValueError)"
proof (intro conjI impI)
  assume a: "1 \<le> length send \<and> length send \<le> 254 \<and> (\<forall>b\<in>set send. is_byte b)"
  then have "length send \<le> 254" and "\<forall>b\<in>set send. is_byte b" by simp_all
  from build_packet_eq [OF this] show "build_packet send =
        Inr ([0x80 OR (int (length send) + 1), int (length send)] @ send @
             [foldl (XOR)
                (if length send = 1 then push_bit 1 ARM64_DDC_7BIT_ADDRESS
                 else push_bit 1 ARM64_DDC_7BIT_ADDRESS XOR ARM64_DDC_DATA_ADDRESS)
                ([0x80 OR (int (length send) + 1), int (length send)] @ send)])"
    by (simp only: packet_seed_def)
next
  assume "255 \<le> length send"
  then show "build_packet send = Inl ValueError" by (rule build_packet_too_long)
qed

text \<open>The amended statement at the payload of a read of feature 16, and at a payload
  of 300 bytes.\<close>

theorem build_packet_layout_witness:
  "1 \<le> length [16::int] \<and> length [16::int] \<le> 254 \<and> is_byte 16
   \<and> build_packet [16] = Inr [0x82, 1, 16, 0xFD]
   \<and> 255 \<le> length (replicate 300 (1::int))
   \<and> build_packet (replicate 300 1) = Inl ValueError"
  using build_packet_layout [of "[16]"] build_packet_layout [of "replicate 300 1"]
  by (simp add: is_byte_def ARM64_DDC_7BIT_ADDRESS_def)

text \<open>
  C4 as the specification states it, for every length from one up, fails at a payload of
  255 bytes: the header byte would be \<open>0x80 | 256 = 384\<close>, which a \<^verbatim>\<open>bytearray\<close> refuses.
\<close>

theorem build_packet_length_255_counterexample:
  "1 \<le> length (replicate 255 (0::int)) \<and> build_packet (replicate 255 0) = Inl ValueError"
  by (simp add: build_packet_def bytearray_append_def is_byte_def raise_bind_def)

text \<open>
  C3, as amended. For every payload of at most 254 bytes a packet is built, and it passes
  the checksum check under the seed it was built with. The reply check, whose seed is
  \<open>0x50\<close>, rejects it. Replacing any one byte before the checksum by a different value
  makes the check under the seed of the packet fail.
\<close>

theorem encode_checksum_seed:
  assumes len: "length send \<le> 254" and bytes: "\<forall>b\<in>set send. is_byte b"
  shows "\<exists>packet. build_packet send = Inr packet
      \<and> checksum_ok (packet_seed (length send)) packet = Inr True
      \<and> validate_reply packet = Inr False
      \<and> (\<forall>i b. i < length packet - 1 \<and> b \<noteq> packet ! i
            \<longrightarrow> checksum_ok (packet_seed (length send)) (packet[i := b]) = Inr False)"
proof -
  define seed where "seed = packet_seed (length send)"
  define body where "body = [0x80 OR (int (length send) + 1), int (length send)] @ send"
  define packet where "packet = body @ [foldl (XOR) seed body]"
  have bp: "build_packet send = Inr packet"
    using build_packet_eq [OF len bytes] by (simp add: packet_def body_def seed_def)
  have ok: "checksum_ok seed packet = Inr True"
    by (simp add: packet_def checksum_ok_snoc)
  have "seed \<noteq> 0x50" by (simp add: seed_def packet_seed_not_reply_seed)
  then have rej: "validate_reply packet = Inr False"
    by (simp add: validate_reply_def packet_def checksum_ok_snoc foldl_xor_seed_inj)
  have flip: "checksum_ok seed (packet[i := b]) = Inr False"
    if "i < length packet - 1 \<and> b \<noteq> packet ! i" for i b
  proof -
    from that have i: "i < length body" by (simp add: packet_def)
    with that have "b \<noteq> body ! i" by (simp add: packet_def nth_append)
    with i show ?thesis unfolding packet_def by (rule checksum_ok_flip)
  qed
  from bp ok rej flip show ?thesis unfolding seed_def by blast
qed

text \<open>The amended statement at the payload of a read of feature 16, with the payload
  byte changed from 16 to 17.\<close>

theorem encode_checksum_seed_witness:
  "length [16::int] \<le> 254 \<and> is_byte 16
   \<and> build_packet [16] = Inr [0x82, 1, 16, 0xFD]
   \<and> checksum_ok (packet_seed 1) [0x82, 1, 16, 0xFD] = Inr True
   \<and> validate_reply [0x82, 1, 16, 0xFD] = Inr False
   \<and> checksum_ok (packet_seed 1) ([0x82, 1, 16, 0xFD][2 := 17]) = Inr False"
proof -
  have h: "length [16::int] \<le> 254" "\<forall>b\<in>set [16]. is_byte b"
    by (simp_all add: is_byte_def)
  have bp: "build_packet [16] = Inr [0x82, 1, 16, 0xFD]"
    using build_packet_eq [OF h] by (simp add: packet_seed_def ARM64_DDC_7BIT_ADDRESS_def)
  from encode_checksum_seed [OF h] bp
  have "checksum_ok (packet_seed (length [16::int])) [0x82, 1, 16, 0xFD] = Inr True
      \<and> validate_reply [0x82, 1, 16, 0xFD] = Inr False
      \<and> (\<forall>i b. i < length [0x82, 1, 16, 0xFD::int] - 1 \<and> b \<noteq> [0x82, 1, 16, 0xFD] ! i
            \<longrightarrow> checksum_ok (packet_seed (length [16::int])) ([0x82, 1, 16, 0xFD][i := b]) = Inr False)"
    by simp
  then have "checksum_ok (packet_seed 1) [0x82, 1, 16, 0xFD] = Inr True
      \<and> validate_reply [0x82, 1, 16, 0xFD] = Inr False
      \<and> checksum_ok (packet_seed 1) ([0x82, 1, 16, 0xFD][2 := 17]) = Inr False"
    by (elim conjE allE [of _ 2] allE [of _ 17]) simp 
  with h bp show ?thesis by simp
qed

text \<open>
  C3 as the specification states it fails in both halves: the reply check rejects the
  packet built for the payload \<open>[16]\<close>, and after the payload byte is changed from
  \<open>0x10\<close> to \<open>0x2E\<close> the reply check accepts it.
\<close>

theorem validate_encoded_packet_counterexample:
  "build_packet [16] = Inr [0x82, 1, 16, 0xFD]
   \<and> validate_reply [0x82, 1, 16, 0xFD] = Inr False
   \<and> validate_reply ([0x82, 1, 16, 0xFD][2 := 0x2E]) = Inr True"
  by (simp add: build_packet_eq is_byte_def packet_seed_def ARM64_DDC_7BIT_ADDRESS_def
        ARM64_DDC_DATA_ADDRESS_def validate_reply_def checksum_ok_eq)

section \<open>Properties of the transport exchange\<close>

lemma write_cycles_state:
  "snd (write_cycles b packet n success st) = st\<lparr>writes_done := writes_done st + n\<rparr>"
  by (induction n arbitrary: success st) (simp_all add: IOAVServiceWriteI2C_def)

lemma attempt_read:
  "attempt b packet True c success st =
     (case read_result b (reads_done st) of
        (ret, rep) \<Rightarrow>
          if ret = 0 then
            (case validate_reply rep of
               Inl e \<Rightarrow> Inl e
             | Inr ok \<Rightarrow> Inr ((ok, rep), \<lparr>writes_done = writes_done st + nat (max c 1),
                                         reads_done = Suc (reads_done st)\<rparr>))
          else Inr ((fst (write_cycles b packet (nat (max c 1)) success st), rep),
                    \<lparr>writes_done = writes_done st + nat (max c 1),
                     reads_done = Suc (reads_done st)\<rparr>))"
proof -
  obtain s1 st1 where w: "write_cycles b packet (nat (max c 1)) success st = (s1, st1)"
    by (cases "write_cycles b packet (nat (max c 1)) success st")
  have "st1 = st\<lparr>writes_done := writes_done st + nat (max c 1)\<rparr>"
    using write_cycles_state [of b packet "nat (max c 1)" success st] w by simp
  then show ?thesis
    unfolding attempt_def w
    by (simp add: IOAVServiceReadI2C_def split: prod.splits sum.splits)
qed

lemma attempt_checksum_failure:
  assumes "read_result b (reads_done st) = (0, rep)" and "validate_reply rep = Inr ok"
  shows "attempt b packet True c success st =
    Inr ((ok, rep), \<lparr>writes_done = writes_done st + nat (max c 1),
                     reads_done = Suc (reads_done st)\<rparr>)"
  using assms by (simp add: attempt_read)

lemma attempts_flag:
  "attempts b p True c n s0 rep0 st = Inr ((s, rep), st') \<Longrightarrow>
   fst (read_result b (reads_done st' - 1)) = 0 \<Longrightarrow>
   (reads_done st' = reads_done st \<longrightarrow> s0 = (validate_reply rep0 = Inr True)) \<Longrightarrow>
   s = (validate_reply rep = Inr True)"
proof (induction n arbitrary: s0 rep0 st)
  case 0
  then show ?case by simp
next
  case (Suc n)
  obtain ret rep1 where rd: "read_result b (reads_done st) = (ret, rep1)"
    by (cases "read_result b (reads_done st)")
  let ?st1 = "\<lparr>writes_done = writes_done st + nat (max c 1), reads_done = Suc (reads_done st)\<rparr>"
  show ?case
  proof (cases "ret = 0")
    case True
    show ?thesis
    proof (cases "validate_reply rep1")
      case (Inl e)
      with Suc.prems(1) rd True show ?thesis by (simp add: attempt_read)
    next
      case (Inr ok)
      then have a: "attempt b p True c s0 st = Inr ((ok, rep1), ?st1)"
        using rd True by (simp add: attempt_read)
      show ?thesis
      proof (cases ok)
        case True
        with Suc.prems(1) a Inr show ?thesis by simp
      next
        case False
        with Suc.prems(1) a
        have rec: "attempts b p True c n False rep1 ?st1 = Inr ((s, rep), st')" by simp
        have "reads_done st' = reads_done ?st1 \<longrightarrow> False = (validate_reply rep1 = Inr True)"
          using Inr False by simp
        from Suc.IH [OF rec Suc.prems(2) this] show ?thesis .
      qed
    qed
  next
    case False
    let ?s1 = "fst (write_cycles b p (nat (max c 1)) s0 st)"
    have a: "attempt b p True c s0 st = Inr ((?s1, rep1), ?st1)"
      using rd False by (simp add: attempt_read)
    show ?thesis
    proof (cases ?s1)
      case True
      with Suc.prems(1) a have "st' = ?st1" by simp
      with Suc.prems(2) rd False show ?thesis by simp
    next
      case nos: False
      with Suc.prems(1) a
      have rec: "attempts b p True c n False rep1 ?st1 = Inr ((s, rep), st')" by simp
      have "reads_done st' = reads_done ?st1 \<longrightarrow> False = (validate_reply rep1 = Inr True)"
        using Suc.prems(2) rd False by auto
      from Suc.IH [OF rec Suc.prems(2) this] show ?thesis .
    qed
  qed
qed

text \<open>Two runs of the exchange on a payload of one byte, two write cycles and four
  attempts. In the first every write fails and the read succeeds with a valid checksum;
  in the second every write succeeds and the read fails.\<close>

lemma exchange_failed_write_run:
  "performDDCCommunication
     (Some \<lparr>write_status = \<lambda>k p. 1,
            read_result = \<lambda>k. (0, [0, 0, 0, 0, 0, 0, 0, 0, 0, 0, 0x50])\<rparr>)
     [16] True 2 4 \<lparr>writes_done = 0, reads_done = 0\<rparr>
   = Inr ((True, [0, 0, 0, 0, 0, 0, 0, 0, 0, 0, 0x50]), \<lparr>writes_done = 2, reads_done = 1\<rparr>)"
  by (simp add: performDDCCommunication_def build_packet_eq is_byte_def raise_bind_def
        attempt_read validate_reply_def checksum_ok_eq numeral_eq_Suc)

lemma exchange_failed_read_run:
  "performDDCCommunication
     (Some \<lparr>write_status = \<lambda>k p. 0,
            read_result = \<lambda>k. (1, [0, 0, 0, 0, 0, 0, 0, 0, 0, 0, 0])\<rparr>)
     [16] True 2 4 \<lparr>writes_done = 0, reads_done = 0\<rparr>
   = Inr ((True, [0, 0, 0, 0, 0, 0, 0, 0, 0, 0, 0]), \<lparr>writes_done = 2, reads_done = 1\<rparr>)"
  by (simp add: performDDCCommunication_def build_packet_eq is_byte_def raise_bind_def
        attempt_read numeral_eq_Suc IOAVServiceWriteI2C_def)

text \<open>
  C1, as amended. For every exchange that expects a reply and returns a flag and a reply:
  if the last read of the bus returned status 0, the flag is true exactly when the
  checksum of that reply is valid. The statuses of the writes do not enter. Nothing is
  said here about an exchange whose last read failed.
\<close>

theorem exchange_flag_after_read:
  assumes "performDDCCommunication (Some b) send True cycles retries st = Inr ((success, rep), st')"
    and "fst (read_result b (reads_done st' - 1)) = 0"
  shows "success = (validate_reply rep = Inr True)"
proof -
  from assms(1) obtain packet where
    run: "attempts b packet True cycles (nat retries) False [] st = Inr ((success, rep), st')"
    by (auto simp: performDDCCommunication_def raise_bind_def split: sum.splits)
  have start: "reads_done st' = reads_done st \<longrightarrow> False = (validate_reply [] = Inr True)"
    by (simp add: validate_reply_def checksum_ok_eq)
  show ?thesis by (rule attempts_flag [OF run assms(2) start])
qed

text \<open>The amended statement at the run in which every write fails.\<close>

theorem exchange_flag_after_read_witness:
  "performDDCCommunication
     (Some \<lparr>write_status = \<lambda>k p. 1,
            read_result = \<lambda>k. (0, [0, 0, 0, 0, 0, 0, 0, 0, 0, 0, 0x50])\<rparr>)
     [16] True 2 4 \<lparr>writes_done = 0, reads_done = 0\<rparr>
   = Inr ((True, [0, 0, 0, 0, 0, 0, 0, 0, 0, 0, 0x50]), \<lparr>writes_done = 2, reads_done = 1\<rparr>)
   \<and> True = (validate_reply [0, 0, 0, 0, 0, 0, 0, 0, 0, 0, 0x50] = Inr True)"
  using exchange_flag_after_read [OF exchange_failed_write_run] exchange_failed_write_run
  by simp

text \<open>
  C1 as the specification states it fails: with a bus on which every write returns the
  status 1 and the read returns status 0 with a valid checksum, the first attempt
  returns success.
\<close>

theorem exchange_failed_write_counterexample:
  "write_status \<lparr>write_status = \<lambda>k p. 1,
      read_result = \<lambda>k. (0, [0, 0, 0, 0, 0, 0, 0, 0, 0, 0, 0x50])\<rparr> 0 [0x82, 1, 16, 0xFD] \<noteq> 0
   \<and> write_status \<lparr>write_status = \<lambda>k p. 1,
      read_result = \<lambda>k. (0, [0, 0, 0, 0, 0, 0, 0, 0, 0, 0, 0x50])\<rparr> 1 [0x82, 1, 16, 0xFD] \<noteq> 0
   \<and> performDDCCommunication
     (Some \<lparr>write_status = \<lambda>k p. 1,
            read_result = \<lambda>k. (0, [0, 0, 0, 0, 0, 0, 0, 0, 0, 0, 0x50])\<rparr>)
     [16] True 2 4 \<lparr>writes_done = 0, reads_done = 0\<rparr>
   = Inr ((True, [0, 0, 0, 0, 0, 0, 0, 0, 0, 0, 0x50]), \<lparr>writes_done = 2, reads_done = 1\<rparr>)"
  using exchange_failed_write_run by simp

text \<open>
  C5. With four attempts allowed, if the reads of the first two attempts succeed with an
  invalid checksum and the read of the third succeeds with a valid one, the exchange
  returns success with the reply of the third read, after three reads and three rounds
  of write cycles: there is no fourth attempt.
\<close>

theorem exchange_third_attempt:
  assumes len: "length send \<le> 254" and bytes: "\<forall>b\<in>set send. is_byte b"
    and r1: "read_result b (reads_done st) = (0, rep1)" and v1: "validate_reply rep1 = Inr False"
    and r2: "read_result b (reads_done st + 1) = (0, rep2)" and v2: "validate_reply rep2 = Inr False"
    and r3: "read_result b (reads_done st + 2) = (0, rep3)" and v3: "validate_reply rep3 = Inr True"
  shows "performDDCCommunication (Some b) send True cycles 4 st =
    Inr ((True, rep3), \<lparr>writes_done = writes_done st + 3 * nat (max cycles 1),
                        reads_done = reads_done st + 3\<rparr>)"
proof -
  obtain packet where bp: "build_packet send = Inr packet"
    using build_packet_eq [OF len bytes] by blast
  let ?w = "nat (max cycles 1)"
  let ?st1 = "\<lparr>writes_done = writes_done st + ?w, reads_done = Suc (reads_done st)\<rparr>"
  let ?st2 = "\<lparr>writes_done = writes_done ?st1 + ?w, reads_done = Suc (reads_done ?st1)\<rparr>"
  let ?st3 = "\<lparr>writes_done = writes_done ?st2 + ?w, reads_done = Suc (reads_done ?st2)\<rparr>"
  have a1: "attempt b packet True cycles False st = Inr ((False, rep1), ?st1)"
    using r1 v1 by (rule attempt_checksum_failure)
  have a2: "attempt b packet True cycles False ?st1 = Inr ((False, rep2), ?st2)"
    using r2 v2 by (intro attempt_checksum_failure) simp_all
  have a3: "attempt b packet True cycles False ?st2 = Inr ((True, rep3), ?st3)"
    using r3 v3 by (intro attempt_checksum_failure) simp_all
  have four: "nat 4 = Suc (Suc (Suc (Suc 0)))" by simp
  have "performDDCCommunication (Some b) send True cycles 4 st = Inr ((True, rep3), ?st3)"
    unfolding performDDCCommunication_def
    by (simp only: option.case bp raise_bind_def sum.case four attempts.simps a1 a2 a3
          prod.case if_True if_False)
  then show ?thesis by simp
qed

text \<open>C5 at a bus whose third read is the first with a valid checksum.\<close>

theorem exchange_third_attempt_witness:
  "validate_reply [0, 0, 0, 0, 0, 0, 0, 0, 0, 0, 0] = Inr False
   \<and> validate_reply [0, 0, 0, 0, 0, 0, 0, 0, 0, 0, 0x50] = Inr True
   \<and> performDDCCommunication
     (Some \<lparr>write_status = \<lambda>k p. 0,
            read_result = \<lambda>k. if k = 2 then (0, [0, 0, 0, 0, 0, 0, 0, 0, 0, 0, 0x50])
                               else (0, [0, 0, 0, 0, 0, 0, 0, 0, 0, 0, 0])\<rparr>)
     [16] True 2 4 \<lparr>writes_done = 0, reads_done = 0\<rparr>
   = Inr ((True, [0, 0, 0, 0, 0, 0, 0, 0, 0, 0, 0x50]), \<lparr>writes_done = 6, reads_done = 3\<rparr>)"
  using exchange_third_attempt [of "[16]"
     "\<lparr>write_status = \<lambda>k p. 0,
            read_result = \<lambda>k. if k = 2 then (0, [0, 0, 0, 0, 0, 0, 0, 0, 0, 0, 0x50])
                               else (0, [0, 0, 0, 0, 0, 0, 0, 0, 0, 0, 0])\<rparr>"
     "\<lparr>writes_done = 0, reads_done = 0\<rparr>" "[0, 0, 0, 0, 0, 0, 0, 0, 0, 0, 0]"
     "[0, 0, 0, 0, 0, 0, 0, 0, 0, 0, 0]" "[0, 0, 0, 0, 0, 0, 0, 0, 0, 0, 0x50]" 2]
  by (simp add: is_byte_def validate_reply_def checksum_ok_eq)

section \<open>Properties of the enumeration\<close>

lemma starts_with_self: "starts_with s s"
  by (induction s) simp_all

lemma str_contains_self: "str_contains s s"
  by (cases s) (simp_all add: starts_with_self)

lemma matching_loop_Nil: "matching_loop [] st = Inr st"
  by (simp add: matching_loop.simps)

lemma next_framebuffer:
  assumes "name_ret e = KERN_SUCCESS" and "entry_name e \<in> set keysFramebuffer"
  shows "ioregIterateToNextObjectOfInterest ([keyDCPAVServiceProxy] @ keysFramebuffer)
           (e # iterator) prev
         = (Some \<lparr>ooi_name = entry_name e, ooi_entry = e, ooi_preceedingEntry = prev\<rparr>, iterator)"
proof -
  from assms(2) have "list_ex (str_contains (entry_name e)) ([keyDCPAVServiceProxy] @ keysFramebuffer)"
    unfolding list_ex_iff using str_contains_self by auto
  with assms(1) show ?thesis by simp
qed

lemma next_proxy:
  assumes "name_ret e = KERN_SUCCESS" and "entry_name e = keyDCPAVServiceProxy"
  shows "ioregIterateToNextObjectOfInterest ([keyDCPAVServiceProxy] @ keysFramebuffer)
           (e # iterator) prev
         = (Some \<lparr>ooi_name = entry_name e, ooi_entry = e, ooi_preceedingEntry = prev\<rparr>, iterator)"
  using assms str_contains_self [of keyDCPAVServiceProxy] by simp

lemma matching_loop_framebuffer:
  assumes "name_ret e = KERN_SUCCESS" and "entry_name e \<in> set keysFramebuffer"
  shows "matching_loop (e # iterator) st =
    (case getIORegServiceAppleCDC2Properties e of
       Inl x \<Rightarrow> Inl x
     | Inr sv \<Rightarrow> matching_loop iterator (start_handle sv st))"
  by (subst matching_loop.simps) (simp only: next_framebuffer [OF assms] prod.case option.case
        ObjectOfInterest.simps assms(2) if_True)

lemma proxy_not_framebuffer: "keyDCPAVServiceProxy \<notin> set keysFramebuffer"
  by (simp add: keyDCPAVServiceProxy_def keysFramebuffer_def)

lemma matching_loop_proxy:
  assumes "name_ret e = KERN_SUCCESS" and "entry_name e = keyDCPAVServiceProxy"
  shows "matching_loop (e # iterator) st = matching_loop iterator (bind_proxy e st)"
  by (subst matching_loop.simps) (simp only: next_proxy [OF assms] prod.case option.case
        ObjectOfInterest.simps assms(2) proxy_not_framebuffer if_True if_False simp_thms)

lemma proxy_service:
  "service (setIORegServiceDCPAVServiceProxy entry sv) =
     (if IORegistryEntryCreateCFProperty entry ''Location'' = Some (PStr ''External'')
      then av_service entry else service sv)"
  by (simp add: setIORegServiceDCPAVServiceProxy_def Let_def)

text \<open>
  A registry with two displays, the first followed by a proxy whose location is
  \<open>External\<close>, the second by one whose location is not. \<^verbatim>\<open>getIoregServicesForMatching\<close>
  returns both objects, the second without a service; only line 256 drops it.
\<close>

lemma example_enumeration:
  "\<exists>h. getIoregServicesForMatching
     \<lparr>create_ret = 0,
      tree = [\<lparr>name_ret = 0, entry_name = ''AppleCLCD2'', entry_path = ''/display0'',
               properties = [], av_service = None\<rparr>,
              \<lparr>name_ret = 0, entry_name = ''DCPAVServiceProxy'', entry_path = ''/proxy0'',
               properties = [(''Location'', PStr ''External'')], av_service = Some 7\<rparr>,
              \<lparr>name_ret = 0, entry_name = ''AppleCLCD2'', entry_path = ''/display1'',
               properties = [], av_service = None\<rparr>,
              \<lparr>name_ret = 0, entry_name = ''DCPAVServiceProxy'', entry_path = ''/proxy1'',
               properties = [(''Location'', PStr ''Embedded'')], av_service = Some 8\<rparr>]\<rparr>
     = Inr ([1, 2], h) \<and> service (h 1) = Some 7 \<and> service (h 2) = None"
  by (simp add: getIoregServicesForMatching_def matching_loop_framebuffer matching_loop_proxy
        matching_loop_Nil KERN_SUCCESS_def keysFramebuffer_def keyDCPAVServiceProxy_def
        getIORegServiceAppleCDC2Properties_def IORegistryEntryCreateCFProperty_def
        raise_bind_def initial_matching_state_def start_handle_def bind_proxy_def
        setIORegServiceDCPAVServiceProxy_def new_IOregService_def Let_def)

text \<open>
  The node before the one found is returned by \<^verbatim>\<open>ioregIterateToNextObjectOfInterest\<close> but
  the loop does not read it, so the loop can be unfolded one node at a time.
\<close>

lemma iterate_preceeding:
  "snd (ioregIterateToNextObjectOfInterest ins it p) = snd (ioregIterateToNextObjectOfInterest ins it q)
   \<and> map_option ooi_name (fst (ioregIterateToNextObjectOfInterest ins it p))
       = map_option ooi_name (fst (ioregIterateToNextObjectOfInterest ins it q))
   \<and> map_option ooi_entry (fst (ioregIterateToNextObjectOfInterest ins it p))
       = map_option ooi_entry (fst (ioregIterateToNextObjectOfInterest ins it q))"
proof (induction it arbitrary: p q)
  case Nil
  show ?case by simp
next
  case (Cons e it)
  from Cons [of "Some e" "Some e"] show ?case by simp
qed


lemma matching_loop_preceeding:
  "matching_loop iterator st =
     (case ioregIterateToNextObjectOfInterest ([keyDCPAVServiceProxy] @ keysFramebuffer)
             iterator q of
        (None, iterator') \<Rightarrow> Inr st
      | (Some objectOfInterest, iterator') \<Rightarrow>
          if ooi_name objectOfInterest \<in> set keysFramebuffer then
            (case getIORegServiceAppleCDC2Properties (ooi_entry objectOfInterest) of
               Inl e \<Rightarrow> Inl e
             | Inr sv \<Rightarrow> matching_loop iterator' (start_handle sv st))
          else if ooi_name objectOfInterest = keyDCPAVServiceProxy then
            matching_loop iterator' (bind_proxy (ooi_entry objectOfInterest) st)
          else matching_loop iterator' st)"
proof -
  let ?ins = "[keyDCPAVServiceProxy] @ keysFramebuffer"
  obtain r1 i1 where a: "ioregIterateToNextObjectOfInterest ?ins iterator None = (r1, i1)"
    by (cases "ioregIterateToNextObjectOfInterest ?ins iterator None")
  obtain r2 i2 where b: "ioregIterateToNextObjectOfInterest ?ins iterator q = (r2, i2)"
    by (cases "ioregIterateToNextObjectOfInterest ?ins iterator q")
  from iterate_preceeding [of ?ins iterator None q] a b
  have i: "i1 = i2" and n: "map_option ooi_name r1 = map_option ooi_name r2"
    and e: "map_option ooi_entry r1 = map_option ooi_entry r2"
    by simp_all
  show ?thesis
    unfolding matching_loop.simps [of iterator st] a b i
    using n e by (cases r1; cases r2) simp_all
qed

lemma matching_loop_unreadable:
  "name_ret e \<noteq> KERN_SUCCESS \<Longrightarrow> matching_loop (e # iterator) st = Inr st"
  by (subst matching_loop.simps) simp

lemma matching_loop_other:
  assumes "name_ret e = KERN_SUCCESS" and "entry_name e \<notin> set keysFramebuffer"
    and "entry_name e \<noteq> keyDCPAVServiceProxy"
  shows "matching_loop (e # iterator) st = matching_loop iterator st"
proof (cases "list_ex (str_contains (entry_name e)) ([keyDCPAVServiceProxy] @ keysFramebuffer)")
  case True
  with assms(1) have "ioregIterateToNextObjectOfInterest ([keyDCPAVServiceProxy] @ keysFramebuffer)
           (e # iterator) None
         = (Some \<lparr>ooi_name = entry_name e, ooi_entry = e, ooi_preceedingEntry = None\<rparr>, iterator)"
    by simp
  then show ?thesis
    by (subst matching_loop.simps) (simp only: prod.case option.case ObjectOfInterest.simps
          assms(2,3) if_False)
next
  case False
  with assms(1) have "ioregIterateToNextObjectOfInterest ([keyDCPAVServiceProxy] @ keysFramebuffer)
           (e # iterator) None
         = ioregIterateToNextObjectOfInterest ([keyDCPAVServiceProxy] @ keysFramebuffer)
           iterator (Some e)"
    by simp
  then show ?thesis
    by (subst matching_loop.simps, subst matching_loop_preceeding [of iterator st "Some e"])
       (simp only:)
qed

lemma matching_loop_Cons:
  "matching_loop (e # iterator) st =
     (if \<not> readable_node e then Inr st
      else if is_framebuffer e then
        (case getIORegServiceAppleCDC2Properties e of
           Inl x \<Rightarrow> Inl x
         | Inr sv \<Rightarrow> matching_loop iterator (start_handle sv st))
      else if is_proxy e then matching_loop iterator (bind_proxy e st)
      else matching_loop iterator st)"
proof (cases "name_ret e = KERN_SUCCESS")
  case False
  then show ?thesis
    by (simp only: readable_node_def matching_loop_unreadable simp_thms if_True)
next
  case ok: True
  show ?thesis
  proof (cases "entry_name e \<in> set keysFramebuffer")
    case True
    with ok show ?thesis
      by (simp only: readable_node_def is_framebuffer_def matching_loop_framebuffer
            simp_thms if_True if_False)
  next
    case nf: False
    show ?thesis
    proof (cases "entry_name e = keyDCPAVServiceProxy")
      case True
      with ok nf show ?thesis
        by (simp only: readable_node_def is_framebuffer_def is_proxy_def matching_loop_proxy
              simp_thms if_True if_False)
    next
      case False
      with ok nf show ?thesis
        by (simp only: readable_node_def is_framebuffer_def is_proxy_def matching_loop_other
              simp_thms if_True if_False)
    qed
  qed
qed

text \<open>What a run of the loop over a list of nodes does to the state.\<close>

lemma proxy_is_no_framebuffer: "is_proxy e \<Longrightarrow> \<not> is_framebuffer e"
  by (simp add: is_proxy_def is_framebuffer_def proxy_not_framebuffer)

lemma matching_loop_append:
  "\<forall>e\<in>set pre. readable_node e \<Longrightarrow>
     matching_loop (pre @ rest) st =
       (case matching_loop pre st of Inl x \<Rightarrow> Inl x | Inr st1 \<Rightarrow> matching_loop rest st1)"
proof (induction pre arbitrary: st)
  case Nil
  show ?case by (simp only: append_Nil matching_loop_Nil sum.case)
next
  case (Cons e pre)
  then have r: "readable_node e" and rest: "\<forall>e\<in>set pre. readable_node e" by simp_all
  note IH = Cons.IH [OF rest]
  show ?case
    by (simp only: append_Cons matching_loop_Cons r IH simp_thms if_False split: sum.split)
       (simp split: sum.split)
qed

lemma matching_loop_takeWhile:
  "matching_loop nodes st = matching_loop (takeWhile readable_node nodes) st"
proof (induction nodes arbitrary: st)
  case Nil
  show ?case by simp
next
  case (Cons e nodes)
  show ?case
  proof (cases "readable_node e")
    case True
    then show ?thesis
      by (simp only: takeWhile.simps if_True matching_loop_Cons Cons.IH [symmetric])
  next
    case False
    then show ?thesis
      by (simp only: takeWhile.simps if_False matching_loop_Cons matching_loop_Nil simp_thms if_True)
  qed
qed

lemma matching_loop_grows:
  "matching_loop nodes st = Inr st' \<Longrightarrow>
     \<exists>xs. ioregServicesForMatching st' = ioregServicesForMatching st @ xs"
proof (induction nodes arbitrary: st)
  case Nil
  then show ?case by (simp add: matching_loop_Nil)
next
  case (Cons e nodes)
  from Cons.prems show ?case
    unfolding matching_loop_Cons
    by (auto split: if_splits sum.splits dest!: Cons.IH simp: start_handle_def bind_proxy_def)
qed

lemma matching_loop_untouched:
  "matching_loop nodes st = Inr st' \<Longrightarrow> a < next_free st \<Longrightarrow> a \<noteq> ioregService st \<Longrightarrow>
     store st' a = store st a"
proof (induction nodes arbitrary: st)
  case Nil
  then show ?case by (simp add: matching_loop_Nil)
next
  case (Cons e nodes)
  show ?case
  proof (cases "readable_node e")
    case False
    with Cons.prems show ?thesis by (simp add: matching_loop_Cons)
  next
    case r: True
    show ?thesis
    proof (cases "is_framebuffer e")
      case True
      with r Cons.prems(1) obtain sv where
        run: "matching_loop nodes (start_handle sv st) = Inr st'"
        by (auto simp: matching_loop_Cons split: sum.splits)
      have "store st' a = store (start_handle sv st) a"
        using Cons.prems(2,3) by (intro Cons.IH [OF run]) (simp_all add: start_handle_def)
      with Cons.prems(2) show ?thesis by (simp add: start_handle_def)
    next
      case nf: False
      show ?thesis
      proof (cases "is_proxy e")
        case True
        with r nf Cons.prems(1) have run: "matching_loop nodes (bind_proxy e st) = Inr st'"
          by (simp add: matching_loop_Cons)
        have "store st' a = store (bind_proxy e st) a"
          using Cons.prems(2,3) by (intro Cons.IH [OF run]) (simp_all add: bind_proxy_def)
        with Cons.prems(3) show ?thesis by (simp add: bind_proxy_def)
      next
        case False
        with r nf Cons.prems(1) have run: "matching_loop nodes st = Inr st'"
          by (simp add: matching_loop_Cons)
        from Cons.IH [OF run Cons.prems(2,3)] show ?thesis .
      qed
    qed
  qed
qed

lemma properties_service:
  "getIORegServiceAppleCDC2Properties e = Inr sv \<Longrightarrow> service sv = None"
  by (auto simp: getIORegServiceAppleCDC2Properties_def set_product_attributes_def Let_def
        raise_bind_def new_IOregService_def split: sum.splits option.splits if_splits)

lemma matching_loop_prefix:
  assumes "\<forall>e\<in>set pre. readable_node e" and "matching_loop pre st = Inr st1"
    and "next_free st = Suc (ioregService st)"
  shows "ioregService st1 = ioregService st + length (filter is_framebuffer pre)
       \<and> next_free st1 = Suc (ioregService st1)
       \<and> length (ioregServicesForMatching st1)
           = length (ioregServicesForMatching st) + length (filter is_proxy pre)"
  using assms
proof (induction pre arbitrary: st)
  case Nil
  then show ?case by (simp add: matching_loop_Nil)
next
  case (Cons e pre)
  then have r: "readable_node e" and rest: "\<forall>e\<in>set pre. readable_node e" by simp_all
  show ?case
  proof (cases "is_framebuffer e")
    case True
    then have np: "\<not> is_proxy e" using proxy_is_no_framebuffer by blast
    from True r Cons.prems(2) obtain sv where
      run: "matching_loop pre (start_handle sv st) = Inr st1"
      by (auto simp: matching_loop_Cons split: sum.splits)
    have inv: "next_free (start_handle sv st) = Suc (ioregService (start_handle sv st))"
      by (simp add: start_handle_def)
    from Cons.IH [OF rest run inv] Cons.prems(3) True np show ?thesis
      by (simp add: start_handle_def)
  next
    case nf: False
    show ?thesis
    proof (cases "is_proxy e")
      case True
      with r nf Cons.prems(2) have run: "matching_loop pre (bind_proxy e st) = Inr st1"
        by (simp add: matching_loop_Cons)
      have inv: "next_free (bind_proxy e st) = Suc (ioregService (bind_proxy e st))"
        using Cons.prems(3) by (simp add: bind_proxy_def)
      from Cons.IH [OF rest run inv] True nf show ?thesis
        by (simp add: bind_proxy_def)
    next
      case False
      with r nf Cons.prems(2) have run: "matching_loop pre st = Inr st1"
        by (simp add: matching_loop_Cons)
      from Cons.IH [OF rest run Cons.prems(3)] False nf show ?thesis by simp
    qed
  qed
qed

lemma matching_loop_channel:
  assumes "matching_loop nodes st = Inr st'" and "ioregService st < next_free st"
  shows "service (store st' (ioregService st)) =
     (let ext = filter (\<lambda>e. is_proxy e \<and> is_external e)
                  (takeWhile (\<lambda>e. readable_node e \<and> \<not> is_framebuffer e) nodes)
      in if ext = [] then service (store st (ioregService st)) else av_service (last ext))"
  using assms
proof (induction nodes arbitrary: st)
  case Nil
  then show ?case by (simp add: matching_loop_Nil)
next
  case (Cons e nodes)
  show ?case
  proof (cases "readable_node e")
    case False
    with Cons.prems show ?thesis by (simp add: matching_loop_Cons)
  next
    case r: True
    show ?thesis
    proof (cases "is_framebuffer e")
      case True
      with r Cons.prems(1) obtain sv where
        run: "matching_loop nodes (start_handle sv st) = Inr st'"
        by (auto simp: matching_loop_Cons split: sum.splits)
      have "store st' (ioregService st) = store (start_handle sv st) (ioregService st)"
        using Cons.prems(2) by (intro matching_loop_untouched [OF run]) (simp_all add: start_handle_def)
      with Cons.prems(2) True show ?thesis by (simp add: start_handle_def)
    next
      case nf: False
      show ?thesis
      proof (cases "is_proxy e")
        case True
        with r nf Cons.prems(1) have run: "matching_loop nodes (bind_proxy e st) = Inr st'"
          by (simp add: matching_loop_Cons)
        have inv: "ioregService (bind_proxy e st) < next_free (bind_proxy e st)"
          using Cons.prems(2) by (simp add: bind_proxy_def)
        have cur: "ioregService (bind_proxy e st) = ioregService st"
          by (simp add: bind_proxy_def)
        have sv: "service (store (bind_proxy e st) (ioregService st)) =
            (if is_external e then av_service e else service (store st (ioregService st)))"
          by (simp add: bind_proxy_def proxy_service is_external_def)
        from Cons.IH [OF run inv] show ?thesis
          unfolding cur sv using r nf True by (simp add: Let_def)
      next
        case False
        with r nf Cons.prems(1) have run: "matching_loop nodes st = Inr st'"
          by (simp add: matching_loop_Cons)
        from Cons.IH [OF run Cons.prems(2)] r nf False show ?thesis by (simp add: Let_def)
      qed
    qed
  qed
qed

text \<open>
  C6. For an enumeration that returns the list \<open>ds\<close> of handles, with the objects \<open>h\<close>
  they stand for. Handles are numbered in the order in which framebuffer nodes start
  them, from 1; handle 0 is the object made before the loop. The walk ends at the first
  node whose name cannot be read. The list has one entry for every proxy node walked, in
  their order, and the entry of a proxy node is the handle most recently started: its
  number is the count of framebuffer nodes before the proxy. The channel of a handle is
  the one given by the last proxy node with location \<open>External\<close> between the framebuffer
  node that started it and the next framebuffer node; if there is no such proxy node the
  handle has no channel. \<open>ddc_displays\<close> is the list without the handles that have no
  channel.
\<close>

theorem enumeration_binds_latest_handle:
  assumes "create_ret reg = KERN_SUCCESS" and "getIoregServicesForMatching reg = Inr (ds, h)"
  shows "length ds = length (filter is_proxy (takeWhile readable_node (tree reg)))
    \<and> (\<forall>pre p post. tree reg = pre @ p # post \<and> (\<forall>e\<in>set pre. readable_node e)
            \<and> readable_node p \<and> is_proxy p
          \<longrightarrow> ds ! length (filter is_proxy pre) = length (filter is_framebuffer pre))
    \<and> (\<forall>pre fb post. tree reg = pre @ fb # post \<and> (\<forall>e\<in>set pre. readable_node e)
            \<and> readable_node fb \<and> is_framebuffer fb
          \<longrightarrow> service (h (Suc (length (filter is_framebuffer pre)))) = attached_channel post)
    \<and> service (h 0) = attached_channel (tree reg)
    \<and> ddc_displays reg = Inr (filter (\<lambda>d. service (h d) \<noteq> None) ds, h)"
proof -
  let ?init = initial_matching_state
  from assms obtain st' where run: "matching_loop (tree reg) ?init = Inr st'"
    and ds: "ds = ioregServicesForMatching st'" and h: "h = store st'"
    by (auto simp: getIoregServicesForMatching_def split: sum.splits)
  have inv: "next_free ?init = Suc (ioregService ?init)"
    by (simp add: initial_matching_state_def)
  have split_run: "\<exists>s1. matching_loop pre ?init = Inr s1 \<and> matching_loop (x # post) s1 = Inr st'"
    if "tree reg = pre @ x # post" "\<forall>e\<in>set pre. readable_node e" for pre x post
    using run matching_loop_append [OF that(2), of "x # post" ?init]
    unfolding that(1) by (auto split: sum.splits)
  have len: "length ds = length (filter is_proxy (takeWhile readable_node (tree reg)))"
  proof -
    have "matching_loop (takeWhile readable_node (tree reg)) ?init = Inr st'"
      using run matching_loop_takeWhile [of "tree reg" ?init] by simp
    moreover have "\<forall>e\<in>set (takeWhile readable_node (tree reg)). readable_node e"
      by (auto dest: set_takeWhileD)
    ultimately show ?thesis
      using matching_loop_prefix [OF _ _ inv] ds by (fastforce simp: initial_matching_state_def)
  qed
  have bound: "ds ! length (filter is_proxy pre) = length (filter is_framebuffer pre)"
    if "tree reg = pre @ p # post" "\<forall>e\<in>set pre. readable_node e" "readable_node p" "is_proxy p"
    for pre p post
  proof -
    from split_run [OF that(1,2)] obtain s1 where
      s1: "matching_loop pre ?init = Inr s1" and rest: "matching_loop (p # post) s1 = Inr st'"
      by blast
    from rest that(3,4) have "matching_loop post (bind_proxy p s1) = Inr st'"
      by (simp add: matching_loop_Cons proxy_is_no_framebuffer)
    from matching_loop_grows [OF this] obtain xs where
      "ds = ioregServicesForMatching s1 @ ioregService s1 # xs"
      by (auto simp: ds bind_proxy_def)
    moreover from matching_loop_prefix [OF that(2) s1 inv]
    have "ioregService s1 = length (filter is_framebuffer pre)"
      and "length (ioregServicesForMatching s1) = length (filter is_proxy pre)"
      by (simp_all add: initial_matching_state_def)
    ultimately show ?thesis by (simp add: nth_append)
  qed
  have chan: "service (h (Suc (length (filter is_framebuffer pre)))) = attached_channel post"
    if "tree reg = pre @ fb # post" "\<forall>e\<in>set pre. readable_node e" "readable_node fb"
      "is_framebuffer fb"
    for pre fb post
  proof -
    from split_run [OF that(1,2)] obtain s1 where
      s1: "matching_loop pre ?init = Inr s1" and rest: "matching_loop (fb # post) s1 = Inr st'"
      by blast
    from rest that(3,4) obtain sv where sv: "getIORegServiceAppleCDC2Properties fb = Inr sv"
      and run2: "matching_loop post (start_handle sv s1) = Inr st'"
      by (auto simp: matching_loop_Cons split: sum.splits)
    from matching_loop_prefix [OF that(2) s1 inv]
    have cur: "ioregService s1 = length (filter is_framebuffer pre)"
      and nf: "next_free s1 = Suc (ioregService s1)"
      by (simp_all add: initial_matching_state_def)
    have a: "ioregService (start_handle sv s1) = Suc (length (filter is_framebuffer pre))"
      using cur nf by (simp add: start_handle_def)
    have b: "ioregService (start_handle sv s1) < next_free (start_handle sv s1)"
      by (simp add: start_handle_def)
    have c: "service (store (start_handle sv s1) (Suc (length (filter is_framebuffer pre)))) = None"
      using properties_service [OF sv] cur nf by (simp add: start_handle_def)
    from matching_loop_channel [OF run2 b] show ?thesis
      by (simp add: a c attached_channel_def h Let_def)
  qed
  have zero: "service (h 0) = attached_channel (tree reg)"
    using matching_loop_channel [OF run]
    by (simp add: initial_matching_state_def new_IOregService_def attached_channel_def h Let_def)
  have ddc: "ddc_displays reg = Inr (filter (\<lambda>d. service (h d) \<noteq> None) ds, h)"
    using assms(2) by (simp add: ddc_displays_def)
  from len bound chan zero ddc show ?thesis by blast
qed

text \<open>
  C6 at a registry with two displays, the first followed by a proxy whose location is
  not \<open>External\<close>, the second by one whose location is: both handles are listed, the
  channel goes to the second handle and not to the first, and only the second handle is
  kept.
\<close>

theorem enumeration_binds_latest_handle_witness:
  "\<exists>ds h. getIoregServicesForMatching
     \<lparr>create_ret = 0,
      tree = [\<lparr>name_ret = 0, entry_name = ''AppleCLCD2'', entry_path = ''/display0'',
               properties = [], av_service = None\<rparr>,
              \<lparr>name_ret = 0, entry_name = ''DCPAVServiceProxy'', entry_path = ''/proxy0'',
               properties = [(''Location'', PStr ''Embedded'')], av_service = Some 8\<rparr>,
              \<lparr>name_ret = 0, entry_name = ''AppleCLCD2'', entry_path = ''/display1'',
               properties = [], av_service = None\<rparr>,
              \<lparr>name_ret = 0, entry_name = ''DCPAVServiceProxy'', entry_path = ''/proxy1'',
               properties = [(''Location'', PStr ''External'')], av_service = Some 7\<rparr>]\<rparr>
     = Inr (ds, h)
   \<and> ds = [1, 2] \<and> service (h 1) = None \<and> service (h 2) = Some 7
   \<and> ddc_displays
     \<lparr>create_ret = 0,
      tree = [\<lparr>name_ret = 0, entry_name = ''AppleCLCD2'', entry_path = ''/display0'',
               properties = [], av_service = None\<rparr>,
              \<lparr>name_ret = 0, entry_name = ''DCPAVServiceProxy'', entry_path = ''/proxy0'',
               properties = [(''Location'', PStr ''Embedded'')], av_service = Some 8\<rparr>,
              \<lparr>name_ret = 0, entry_name = ''AppleCLCD2'', entry_path = ''/display1'',
               properties = [], av_service = None\<rparr>,
              \<lparr>name_ret = 0, entry_name = ''DCPAVServiceProxy'', entry_path = ''/proxy1'',
               properties = [(''Location'', PStr ''External'')], av_service = Some 7\<rparr>]\<rparr>
     = Inr ([2], h)"
proof -
  let ?fbA = "\<lparr>name_ret = 0, entry_name = ''AppleCLCD2'', entry_path = ''/display0'',
               properties = [], av_service = None\<rparr>"
  let ?emb = "\<lparr>name_ret = 0, entry_name = ''DCPAVServiceProxy'', entry_path = ''/proxy0'',
               properties = [(''Location'', PStr ''Embedded'')], av_service = Some 8\<rparr>"
  let ?fbB = "\<lparr>name_ret = 0, entry_name = ''AppleCLCD2'', entry_path = ''/display1'',
               properties = [], av_service = None\<rparr>"
  let ?ext = "\<lparr>name_ret = 0, entry_name = ''DCPAVServiceProxy'', entry_path = ''/proxy1'',
               properties = [(''Location'', PStr ''External'')], av_service = Some 7\<rparr>"
  let ?reg = "\<lparr>create_ret = 0, tree = [?fbA, ?emb, ?fbB, ?ext]\<rparr>"
  have nodes: "readable_node ?fbA" "readable_node ?emb" "readable_node ?fbB" "readable_node ?ext"
    "is_framebuffer ?fbA" "\<not> is_framebuffer ?emb" "is_framebuffer ?fbB" "\<not> is_framebuffer ?ext"
    "\<not> is_proxy ?fbA" "is_proxy ?emb" "\<not> is_proxy ?fbB" "is_proxy ?ext"
    "\<not> is_external ?emb" "is_external ?ext"
    by (simp_all add: readable_node_def is_framebuffer_def is_proxy_def is_external_def
          KERN_SUCCESS_def keysFramebuffer_def keyDCPAVServiceProxy_def
          IORegistryEntryCreateCFProperty_def)
  have ok: "create_ret ?reg = KERN_SUCCESS" by (simp add: KERN_SUCCESS_def)
  obtain ds h where run: "getIoregServicesForMatching ?reg = Inr (ds, h)"
    by (simp add: getIoregServicesForMatching_def matching_loop_framebuffer matching_loop_proxy
        matching_loop_Nil KERN_SUCCESS_def keysFramebuffer_def keyDCPAVServiceProxy_def
        getIORegServiceAppleCDC2Properties_def IORegistryEntryCreateCFProperty_def
        raise_bind_def Let_def)
  note t = enumeration_binds_latest_handle [OF ok run]
  from t have len: "length ds = 2" by (simp add: nodes)
  from t have "tree ?reg = [?fbA] @ ?emb # [?fbB, ?ext] \<and> (\<forall>e\<in>set [?fbA]. readable_node e)
            \<and> readable_node ?emb \<and> is_proxy ?emb
          \<longrightarrow> ds ! length (filter is_proxy [?fbA]) = length (filter is_framebuffer [?fbA])"
    by blast
  then have d0: "ds ! 0 = 1" by (simp add: nodes)
  from t have "tree ?reg = [?fbA, ?emb, ?fbB] @ ?ext # [] \<and> (\<forall>e\<in>set [?fbA, ?emb, ?fbB]. readable_node e)
            \<and> readable_node ?ext \<and> is_proxy ?ext
          \<longrightarrow> ds ! length (filter is_proxy [?fbA, ?emb, ?fbB])
              = length (filter is_framebuffer [?fbA, ?emb, ?fbB])"
    by blast
  then have d1: "ds ! 1 = 2" by (simp add: nodes)
  from len d0 d1 have ds: "ds = [1, 2]"
    by (cases ds; cases "tl ds") auto
  from t have "tree ?reg = [] @ ?fbA # [?emb, ?fbB, ?ext] \<and> (\<forall>e\<in>set []. readable_node e)
            \<and> readable_node ?fbA \<and> is_framebuffer ?fbA
          \<longrightarrow> service (h (Suc (length (filter is_framebuffer []))))
              = attached_channel [?emb, ?fbB, ?ext]"
    by blast
  then have h1: "service (h 1) = None" by (simp add: nodes attached_channel_def)
  from t have "tree ?reg = [?fbA, ?emb] @ ?fbB # [?ext] \<and> (\<forall>e\<in>set [?fbA, ?emb]. readable_node e)
            \<and> readable_node ?fbB \<and> is_framebuffer ?fbB
          \<longrightarrow> service (h (Suc (length (filter is_framebuffer [?fbA, ?emb]))))
              = attached_channel [?ext]"
    by blast
  then have h2: "service (h 2) = Some 7"
    by (simp add: nodes attached_channel_def numeral_2_eq_2)
  have kept: "filter (\<lambda>d. service (h d) \<noteq> None) [1, 2] = [2]"
    using h1 h2 by simp
  from t have "ddc_displays ?reg = Inr (filter (\<lambda>d. service (h d) \<noteq> None) ds, h)" by blast
  then have ddc: "ddc_displays ?reg = Inr ([2], h)" by (simp only: ds kept)
  from run ds h1 h2 ddc show ?thesis by blast
qed

text \<open>
  C9. If creating the registry iterator does not return \<^verbatim>\<open>KERN_SUCCESS\<close>, the enumeration
  returns the list gathered so far, which is empty, and raises nothing.
\<close>

theorem iterator_not_opened:
  "create_ret reg \<noteq> KERN_SUCCESS \<Longrightarrow>
     getIoregServicesForMatching reg = Inr ([], \<lambda>a. new_IOregService)
     \<and> ddc_displays reg = Inr ([], \<lambda>a. new_IOregService)"
  by (simp add: getIoregServicesForMatching_def ddc_displays_def)

text \<open>C9 at a registry whose iterator cannot be created.\<close>

theorem iterator_not_opened_witness:
  "create_ret \<lparr>create_ret = 5, tree = [\<lparr>name_ret = 0, entry_name = ''AppleCLCD2'',
        entry_path = ''/display0'', properties = [], av_service = None\<rparr>]\<rparr> \<noteq> KERN_SUCCESS
   \<and> getIoregServicesForMatching \<lparr>create_ret = 5, tree = [\<lparr>name_ret = 0,
        entry_name = ''AppleCLCD2'', entry_path = ''/display0'', properties = [],
        av_service = None\<rparr>]\<rparr> = Inr ([], \<lambda>a. new_IOregService)"
  using iterator_not_opened [of "\<lparr>create_ret = 5, tree = [\<lparr>name_ret = 0,
        entry_name = ''AppleCLCD2'', entry_path = ''/display0'', properties = [],
        av_service = None\<rparr>]\<rparr>"]
  by (simp add: KERN_SUCCESS_def)

section \<open>Properties of the feature operations\<close>

subsection \<open>Any monitor\<close>

lemma getitem_map: "getitem (map f xs) i = map_sum id f (getitem xs i)"
proof -
  have "nat (i + int (length xs)) < length xs" if "i < 0" "0 \<le> i + int (length xs)"
    using that by linarith
  moreover have "nat i < length xs" if "0 \<le> i" "i < int (length xs)"
    using that by linarith
  ultimately show ?thesis by (simp add: getitem_def)
qed

lemma get_monitor_map:
  "get_monitor (map_sum id (map f) get_vcps) mon = map_sum id f (get_monitor get_vcps mon)"
proof (cases get_vcps)
  case (Inl e)
  then show ?thesis
    by (cases e) (simp_all add: get_monitor_def list_monitors_def raise_bind_def)
next
  case (Inr ms)
  then show ?thesis
    by (cases "getitem ms mon")
       (simp_all add: get_monitor_def list_monitors_def raise_bind_def getitem_map split: error.splits)
qed

text \<open>
  C10. A call of \<^verbatim>\<open>set_attribute\<close> that succeeds returns the value it was given, and the
  state it leaves is the one that the single call of \<^verbatim>\<open>set_vcp_feature\<close> left. The result
  is the same whatever the monitors' \<^verbatim>\<open>get_vcp_feature\<close> is: the feature is never read
  back.
\<close>

theorem set_attribute_returns_argument:
  "(set_attribute get_vcps mon attr val s = (Inr r, s') \<longrightarrow>
      r = val
      \<and> (\<exists>monitor. get_monitor get_vcps mon = Inr monitor
            \<and> set_vcp_feature monitor attr val s = (Inr (), s')))
   \<and> set_attribute (map_sum id (map (\<lambda>m. m\<lparr>get_vcp_feature := g\<rparr>)) get_vcps) mon attr val s
       = set_attribute get_vcps mon attr val s"
proof (intro conjI impI)
  assume a: "set_attribute get_vcps mon attr val s = (Inr r, s')"
  then obtain monitor where m: "get_monitor get_vcps mon = Inr monitor"
    by (cases "get_monitor get_vcps mon") (simp_all add: set_attribute_def)
  obtain res s1 where sv: "set_vcp_feature monitor attr val s = (res, s1)"
    by (cases "set_vcp_feature monitor attr val s")
  show "r = val"
    using a m sv by (cases res) (auto simp: set_attribute_def split: error.splits)
  have "set_vcp_feature monitor attr val s = (Inr (), s')"
    using a m sv by (cases res) (auto simp: set_attribute_def split: error.splits)
  with m show "\<exists>monitor. get_monitor get_vcps mon = Inr monitor
            \<and> set_vcp_feature monitor attr val s = (Inr (), s')" by blast
next
  show "set_attribute (map_sum id (map (\<lambda>m. m\<lparr>get_vcp_feature := g\<rparr>)) get_vcps) mon attr val s
       = set_attribute get_vcps mon attr val s"
    by (cases "get_monitor get_vcps mon") (simp_all add: set_attribute_def get_monitor_map)
qed

text \<open>C10 at a monitor that acknowledges every write and stores none: the value
  reported as set is 50 while a read gives 10.\<close>

theorem set_attribute_returns_argument_witness:
  "set_attribute
     (Inr [\<lparr>set_vcp_feature = \<lambda>c v s. (Inr (), s),
            get_vcp_feature = \<lambda>c s. (Inr \<lparr>fr_value = s, fr_max = 100\<rparr>, s)\<rparr>])
     0 \<lparr>code = 16, discrete = False, readable = True, writeable = True\<rparr> 50 (10::int)
   = (Inr 50, 10)
   \<and> get_attribute
     (Inr [\<lparr>set_vcp_feature = \<lambda>c v s. (Inr (), s),
            get_vcp_feature = \<lambda>c s. (Inr \<lparr>fr_value = s, fr_max = 100\<rparr>, s)\<rparr>])
     0 \<lparr>code = 16, discrete = False, readable = True, writeable = True\<rparr> (10::int)
   = (Inr \<lparr>fr_value = 10, fr_max = 100\<rparr>, 10)"
proof -
  let ?G = "Inr [\<lparr>set_vcp_feature = \<lambda>c v (s::int). (Inr (), s),
            get_vcp_feature = \<lambda>c s. (Inr \<lparr>fr_value = s, fr_max = 100\<rparr>, s)\<rparr>]"
  let ?com = "\<lparr>code = 16, discrete = False, readable = True, writeable = True\<rparr>"
  obtain r s' where run: "set_attribute ?G 0 ?com 50 10 = (Inr r, s')"
    by (simp add: set_attribute_def get_monitor_def list_monitors_def raise_bind_def getitem_def)
  with set_attribute_returns_argument [of ?G 0 ?com 50 10 r s']
  have "r = 50" by blast
  moreover from run have "s' = 10"
    by (simp add: set_attribute_def get_monitor_def list_monitors_def raise_bind_def getitem_def)
  ultimately have "set_attribute ?G 0 ?com 50 10 = (Inr 50, 10)" using run by simp
  then show ?thesis
    by (simp add: get_attribute_def get_monitor_def list_monitors_def raise_bind_def getitem_def)
qed

subsection \<open>The test double\<close>

lemma get_monitor_DummyVCP:
  "- 3 \<le> mon \<Longrightarrow> mon < 3 \<Longrightarrow> get_monitor DummyVCP_get_vcps mon = Inr DummyVCP"
proof -
  assume a: "- 3 \<le> mon" "mon < 3"
  then have "mon = -3 \<or> mon = -2 \<or> mon = -1 \<or> mon = 0 \<or> mon = 1 \<or> mon = 2" by arith
  then show ?thesis
    by (auto simp: get_monitor_def list_monitors_def DummyVCP_get_vcps_def raise_bind_def
          getitem_def)
qed

lemma set_vcp_feature_DummyVCP:
  assumes "writeable com"
    and "discrete com = (supported_codes (code com) \<noteq> Some None)"
    and "DummyVCP_accepts (code com) v"
  shows "set_vcp_feature DummyVCP com v cv = (Inr (), cv(code com \<mapsto> v))"
proof (cases "supported_codes (code com)")
  case None
  with assms(3) show ?thesis by (simp add: DummyVCP_accepts_def)
next
  case (Some params)
  show ?thesis
  proof (cases params)
    case None
    with Some assms(3) obtain m where m: "unknown_max_values (code com) = Some m" "v \<le> m"
      by (auto simp: DummyVCP_accepts_def split: option.splits)
    from Some None assms(2) have "\<not> discrete com" by simp
    with assms(1) Some None m show ?thesis
      by (simp add: DummyVCP_def ABCVCP_set_vcp_feature_def DummyVCP_declared_maximum_def
            DummyVCP_set_vcp_feature_def)
  next
    case (Some ps)
    with \<open>supported_codes (code com) = Some params\<close> assms(2,3)
    have "discrete com" and "v \<in> set ps" and "supported_codes (code com) = Some (Some ps)"
      by (simp_all add: DummyVCP_accepts_def)
    with assms(1) show ?thesis
      by (simp add: DummyVCP_def ABCVCP_set_vcp_feature_def DummyVCP_param_values_def
            DummyVCP_set_vcp_feature_def)
  qed
qed

lemma set_attribute_DummyVCP:
  assumes "- 3 \<le> mon" and "mon < 3" and "writeable com"
    and "discrete com = (supported_codes (code com) \<noteq> Some None)"
    and "DummyVCP_accepts (code com) v"
  shows "set_attribute DummyVCP_get_vcps mon com v cv = (Inr v, cv(code com \<mapsto> v))"
  by (simp add: set_attribute_def get_monitor_DummyVCP [OF assms(1,2)]
        set_vcp_feature_DummyVCP [OF assms(3,4,5)])

lemma get_attribute_DummyVCP:
  assumes "- 3 \<le> mon" and "mon < 3" and "readable com"
    and "discrete com = (supported_codes (code com) \<noteq> Some None)"
    and "DummyVCP_accepts (code com) v"
    and "cv (code com) = Some c"
  shows "\<exists>m. get_attribute DummyVCP_get_vcps mon com cv = (Inr \<lparr>fr_value = c, fr_max = m\<rparr>, cv)"
  using assms
  by (auto simp: get_attribute_def get_monitor_DummyVCP DummyVCP_def ABCVCP_get_vcp_feature_def
        DummyVCP_get_vcp_feature_def DummyVCP_accepts_def split: option.splits)

lemma toggle_attribute_DummyVCP:
  assumes "- 3 \<le> mon" and "mon < 3" and "readable com" and "writeable com"
    and "discrete com = (supported_codes (code com) \<noteq> Some None)"
    and "DummyVCP_accepts (code com) a" and "DummyVCP_accepts (code com) b"
    and "cv (code com) = Some c"
  shows "toggle_attribute DummyVCP_get_vcps mon com a b cv =
     (Inr \<lparr>old = c, new = (if c = a then b else a)\<rparr>, cv(code com \<mapsto> (if c = a then b else a)))"
proof -
  obtain m where g: "get_attribute DummyVCP_get_vcps mon com cv = (Inr \<lparr>fr_value = c, fr_max = m\<rparr>, cv)"
    using get_attribute_DummyVCP [where cv = cv, OF assms(1,2,3,5,6,8)] by blast
  have acc: "DummyVCP_accepts (code com) (if c = a then b else a)"
    using assms(6,7) by simp
  show ?thesis
    unfolding toggle_attribute_def g
    by (simp add: Let_def set_attribute_DummyVCP [OF assms(1,2,4,5) acc])
qed

text \<open>
  C8. On the test double, for a feature that can be read and written and two values it
  accepts: a toggle returns the current value as \<open>old\<close> and, as \<open>new\<close>, the second value
  if the current one equals the first and the first value otherwise, and stores \<open>new\<close>.
  If the current value is the first value, a second toggle on the state the first one
  left returns the pair the other way round.
\<close>

theorem toggle_attribute_oscillates:
  assumes "- 3 \<le> mon" and "mon < 3" and "readable com" and "writeable com"
    and "discrete com = (supported_codes (code com) \<noteq> Some None)"
    and "DummyVCP_accepts (code com) a" and "DummyVCP_accepts (code com) b"
    and "cv (code com) = Some c"
  shows "toggle_attribute DummyVCP_get_vcps mon com a b cv =
       (Inr \<lparr>old = c, new = (if c = a then b else a)\<rparr>, cv(code com \<mapsto> (if c = a then b else a)))
     \<and> (c = a \<longrightarrow>
          toggle_attribute DummyVCP_get_vcps mon com a b
            (snd (toggle_attribute DummyVCP_get_vcps mon com a b cv))
          = (Inr \<lparr>old = b, new = a\<rparr>, cv(code com \<mapsto> a)))"
proof (intro conjI impI)
  show first: "toggle_attribute DummyVCP_get_vcps mon com a b cv =
       (Inr \<lparr>old = c, new = (if c = a then b else a)\<rparr>, cv(code com \<mapsto> (if c = a then b else a)))"
    using assms by (rule toggle_attribute_DummyVCP)
  assume "c = a"
  with first have s1: "snd (toggle_attribute DummyVCP_get_vcps mon com a b cv) = cv(code com \<mapsto> b)"
    by simp
  have "(cv(code com \<mapsto> b)) (code com) = Some b" by simp
  from toggle_attribute_DummyVCP [where cv = "cv(code com \<mapsto> b)", OF assms(1-7) this]
  show "toggle_attribute DummyVCP_get_vcps mon com a b
            (snd (toggle_attribute DummyVCP_get_vcps mon com a b cv))
          = (Inr \<lparr>old = b, new = a\<rparr>, cv(code com \<mapsto> a))"
    unfolding s1 by (cases "b = a") simp_all
qed

text \<open>C8 at the input source, code 96, toggled between 27 and 15 from 27.\<close>

theorem toggle_attribute_oscillates_witness:
  "toggle_attribute DummyVCP_get_vcps 1
      \<lparr>code = 96, discrete = True, readable = True, writeable = True\<rparr> 27 15
      initial_current_values
     = (Inr \<lparr>old = 27, new = 15\<rparr>, initial_current_values(96 \<mapsto> 15))
   \<and> toggle_attribute DummyVCP_get_vcps 1
      \<lparr>code = 96, discrete = True, readable = True, writeable = True\<rparr> 27 15
      (snd (toggle_attribute DummyVCP_get_vcps 1
         \<lparr>code = 96, discrete = True, readable = True, writeable = True\<rparr> 27 15
         initial_current_values))
     = (Inr \<lparr>old = 15, new = 27\<rparr>, initial_current_values(96 \<mapsto> 27))"
proof -
  let ?com = "\<lparr>code = 96, discrete = True, readable = True, writeable = True\<rparr>"
  have h: "- 3 \<le> (1::int)" "(1::int) < 3" "readable ?com" "writeable ?com"
    "discrete ?com = (supported_codes (code ?com) \<noteq> Some None)"
    "DummyVCP_accepts (code ?com) 27" "DummyVCP_accepts (code ?com) 15"
    "initial_current_values (code ?com) = Some 27"
    by (simp_all add: DummyVCP_accepts_def supported_codes_def initial_current_values_def)
  note t = toggle_attribute_oscillates [where cv = initial_current_values, OF h]
  have a: "toggle_attribute DummyVCP_get_vcps 1 ?com 27 15 initial_current_values
     = (Inr \<lparr>old = 27, new = 15\<rparr>, initial_current_values(96 \<mapsto> 15))"
    using t by simp
  have b: "toggle_attribute DummyVCP_get_vcps 1 ?com 27 15 (initial_current_values(96 \<mapsto> 15))
     = (Inr \<lparr>old = 15, new = 27\<rparr>, initial_current_values(96 \<mapsto> 27))"
    using t by (simp add: a)
  show ?thesis by (simp add: a b)
qed

subsection \<open>The range check of the session\<close>



end
